theory Spec2Isabelle
  imports Complex_Main "HOL-Library.Multiset"
begin

section \<open>Python values shared by both modules\<close>

text \<open>
  Every exception the two modules can raise is a constructor of \<open>py_error\<close>; a function
  that may raise returns \<open>py_error + 'a\<close> with \<open>Inl\<close> for the exception.
  \<open>CvError\<close> is the \<open>cv2.error\<close> raised by OpenCV itself.
\<close>

datatype py_error =
    AssertionError string
  | IndexError
  | KeyError string
  | ZeroDivisionError
  | OverflowError
  | ValueError
  | CvError

subsection \<open>Floats: IEEE-754 binary64 with round-to-nearest, ties-to-even\<close>

text \<open>
  A Python \<open>float\<close> is a binary64 value. The finite ones are rationals; \<open>Finite 0\<close>
  stands for both signed zeros, which none of the operations used here tell apart.
  \<open>round_double\<close> is the rounding every arithmetic operation applies to its exact result:
  53 significant bits, gradual underflow below \<open>2 powi (- 1022)\<close>, overflow to an
  infinity when the rounded magnitude reaches \<open>2 ^ 1024\<close>.
\<close>

datatype pyfloat = Finite rat | PInf | NInf | NaN

fun bitlen :: "nat \<Rightarrow> nat" where
  "bitlen n = (if n = 0 then 0 else Suc (bitlen (n div 2)))"

definition binade :: "rat \<Rightarrow> int" where
  "binade x =
     (let (p, q) = quotient_of x;
          k = int (bitlen (nat p)) - int (bitlen (nat q))
      in if 2 powi k \<le> x then k else k - 1)"

definition round_half_even :: "rat \<Rightarrow> int" where
  "round_half_even x =
     (let f = \<lfloor>x\<rfloor>; d = x - of_int f
      in if d < 1 / 2 then f
         else if 1 / 2 < d then f + 1
         else if even f then f else f + 1)"

definition quantum :: "rat \<Rightarrow> rat" where
  "quantum a = 2 powi (max (binade a) (- 1022) - 52)"

definition bexp :: "rat \<Rightarrow> int" where
  "bexp a = max (binade a) (- 1022)"

definition round_mag :: "rat \<Rightarrow> rat" where
  "round_mag a = (if a = 0 then 0 else of_int (round_half_even (a / quantum a)) * quantum a)"

definition round_double :: "rat \<Rightarrow> pyfloat" where
  "round_double x =
     (let r = round_mag \<bar>x\<bar>
      in if 2 ^ 1024 \<le> r then (if 0 < x then PInf else NInf)
         else Finite (if x < 0 then - r else r))"

definition is_double :: "rat \<Rightarrow> bool" where
  "is_double a \<longleftrightarrow> round_double a = Finite a"

text \<open>A float literal such as \<open>0.7\<close> denotes the double nearest to the decimal.\<close>

definition float_lit :: "rat \<Rightarrow> pyfloat" where
  "float_lit r = round_double r"

fun float_add :: "pyfloat \<Rightarrow> pyfloat \<Rightarrow> pyfloat" where
  "float_add NaN _ = NaN"
| "float_add _ NaN = NaN"
| "float_add PInf NInf = NaN"
| "float_add NInf PInf = NaN"
| "float_add PInf _ = PInf"
| "float_add _ PInf = PInf"
| "float_add NInf _ = NInf"
| "float_add _ NInf = NInf"
| "float_add (Finite a) (Finite b) = round_double (a + b)"

definition inf_of_sign :: "bool \<Rightarrow> pyfloat" where
  "inf_of_sign positive = (if positive then PInf else NInf)"

fun float_mul :: "pyfloat \<Rightarrow> pyfloat \<Rightarrow> pyfloat" where
  "float_mul NaN _ = NaN"
| "float_mul _ NaN = NaN"
| "float_mul PInf PInf = PInf"
| "float_mul PInf NInf = NInf"
| "float_mul NInf PInf = NInf"
| "float_mul NInf NInf = PInf"
| "float_mul PInf (Finite b) = (if b = 0 then NaN else inf_of_sign (0 < b))"
| "float_mul NInf (Finite b) = (if b = 0 then NaN else inf_of_sign (b < 0))"
| "float_mul (Finite a) PInf = (if a = 0 then NaN else inf_of_sign (0 < a))"
| "float_mul (Finite a) NInf = (if a = 0 then NaN else inf_of_sign (a < 0))"
| "float_mul (Finite a) (Finite b) = round_double (a * b)"

fun float_le :: "pyfloat \<Rightarrow> pyfloat \<Rightarrow> bool" where
  "float_le NaN _ = False"
| "float_le _ NaN = False"
| "float_le NInf _ = True"
| "float_le _ PInf = True"
| "float_le PInf _ = False"
| "float_le _ NInf = False"
| "float_le (Finite a) (Finite b) = (a \<le> b)"

text \<open>\<open>float(n)\<close> for an \<open>int\<close>, as the mixed product \<open>n * ratio\<close> performs it.\<close>

definition float_of_int :: "int \<Rightarrow> py_error + pyfloat" where
  "float_of_int n =
     (case round_double (of_int n) of
        Finite r \<Rightarrow> Inr (Finite r)
      | _ \<Rightarrow> Inl OverflowError)"

text \<open>\<open>int(x)\<close> truncates toward zero and refuses infinities and NaN.\<close>

definition py_trunc :: "rat \<Rightarrow> int" where
  "py_trunc r = (if 0 \<le> r then \<lfloor>r\<rfloor> else \<lceil>r\<rceil>)"

fun py_int :: "pyfloat \<Rightarrow> py_error + int" where
  "py_int (Finite r) = Inr (py_trunc r)"
| "py_int PInf = Inl OverflowError"
| "py_int NInf = Inl OverflowError"
| "py_int NaN = Inl ValueError"

text \<open>\<open>a / b\<close> on two \<open>int\<close>s: the correctly rounded quotient, a finite float.\<close>

definition int_truediv :: "int \<Rightarrow> int \<Rightarrow> py_error + rat" where
  "int_truediv a b =
     (if b = 0 then Inl ZeroDivisionError
      else case round_double (of_int a / of_int b) of
             Finite r \<Rightarrow> Inr r
           | _ \<Rightarrow> Inl OverflowError)"

subsection \<open>Lists and dicts\<close>

definition list_get :: "'a list \<Rightarrow> nat \<Rightarrow> py_error + 'a" where
  "list_get xs i = (if i < length xs then Inr (xs ! i) else Inl IndexError)"

definition dict_get :: "(string \<times> 'v) list \<Rightarrow> string \<Rightarrow> py_error + 'v" where
  "dict_get d k = (case map_of d k of None \<Rightarrow> Inl (KeyError k) | Some v \<Rightarrow> Inr v)"

text \<open>
  Slice bounds: a negative bound counts from the end, and both are clamped to the list.
\<close>

definition slice_index :: "nat \<Rightarrow> int \<Rightarrow> nat" where
  "slice_index n i = (if i < 0 then nat (max 0 (int n + i)) else min n (nat i))"

definition py_slice :: "'a list \<Rightarrow> int option \<Rightarrow> int option \<Rightarrow> 'a list" where
  "py_slice xs lo hi =
     (let n = length xs;
          l = (case lo of None \<Rightarrow> 0 | Some i \<Rightarrow> slice_index n i);
          h = (case hi of None \<Rightarrow> n | Some j \<Rightarrow> slice_index n j)
      in take (h - l) (drop l xs))"

section \<open>general/dir_utils.py\<close>

subsection \<open>File-system effects\<close>

text \<open>
  The operations \<open>random_split\<close> performs on the file system, in the order it performs
  them. A directory is the sequence of path components joined by \<open>/\<close>. \<open>Mkdir\<close> is
  \<open>mkdir(parents=True, exist_ok=True)\<close>, \<open>Copy2\<close> is \<open>shutil.copy2\<close> and
  \<open>Move\<close> is \<open>shutil.move\<close>. The operations themselves belong to the standard
  library and are taken to succeed.
\<close>

datatype fs_op =
    Mkdir "string list"
  | Copy2 string "string list"
  | Move string "string list"

fun copy_files :: "string list \<Rightarrow> string list \<Rightarrow> bool \<Rightarrow> fs_op list" where
  "copy_files [] des_dir move = []"
| "copy_files (file # files) des_dir move =
     (if move then Move file des_dir else Copy2 file des_dir) # copy_files files des_dir move"

subsection \<open>\<open>random.shuffle\<close>\<close>

text \<open>
  The standard library shuffles in place, from the last index down to 1, swapping
  position \<open>i\<close> with a position drawn below \<open>i + 1\<close>. The randomness source is a
  parameter: \<open>rng i\<close> is the number the generator yields for the draw at index \<open>i\<close>.
\<close>

definition swap :: "nat \<Rightarrow> nat \<Rightarrow> 'a list \<Rightarrow> 'a list" where
  "swap i j xs = xs[i := xs ! j, j := xs ! i]"

fun shuffle_loop :: "(nat \<Rightarrow> nat) \<Rightarrow> nat \<Rightarrow> 'a list \<Rightarrow> 'a list" where
  "shuffle_loop rng 0 xs = xs"
| "shuffle_loop rng (Suc i) xs = shuffle_loop rng i (swap (Suc i) (rng (Suc i) mod (Suc i + 1)) xs)"

definition shuffle :: "(nat \<Rightarrow> nat) \<Rightarrow> 'a list \<Rightarrow> 'a list" where
  "shuffle rng xs = shuffle_loop rng (length xs - 1) xs"

subsection \<open>\<open>random_split\<close>\<close>

text \<open>\<open>int(n * ratio)\<close>: the \<open>int\<close> is converted, multiplied as a float, truncated.\<close>

definition cut_index :: "nat \<Rightarrow> pyfloat \<Rightarrow> py_error + int" where
  "cut_index n ratio =
     (case float_of_int (int n) of
        Inl e \<Rightarrow> Inl e
      | Inr f \<Rightarrow> py_int (float_mul f ratio))"

text \<open>
  \<open>fp\<close> is what \<open>glob.glob\<close> finds under \<open>input_path\<close> (a read of the file system).
  The two \<open>assert\<close> statements are executed, as the interpreter does unless it is run
  with \<open>-O\<close>.
  The function returns \<open>None\<close> in Python; the model returns the three local groups
  \<open>(train, val, test)\<close> and the file-system operations performed up to the return or
  the exception.
\<close>

definition random_split ::
  "(nat \<Rightarrow> nat) \<Rightarrow> string list \<Rightarrow> string \<Rightarrow> pyfloat \<Rightarrow> pyfloat \<Rightarrow> bool \<Rightarrow> string
     \<Rightarrow> (py_error + string list \<times> string list \<times> string list) \<times> fs_op list" where
  "random_split rng fp output_path train_ratio val_ratio move name =
     (if \<not> float_le (float_add train_ratio val_ratio) (Finite 1)
      then (Inl (AssertionError ''Total of train, val ratio must <= 1''), [])
      else
        let n = length fp in
        if \<not> 0 < n then (Inl (AssertionError ''Empty data folder''), [])
        else
          let train_path = [output_path, ''train'', name];
              val_path = [output_path, ''val'', name];
              test_path = [output_path, ''test'', name];
              made = [Mkdir train_path, Mkdir val_path]
          in case cut_index n (float_add train_ratio val_ratio) of
               Inl e \<Rightarrow> (Inl e, made)
             | Inr b \<Rightarrow>
                 let made' = made @ (if b < int n then [Mkdir test_path] else []);
                     shuffled = shuffle rng fp
                 in case cut_index n train_ratio of
                      Inl e \<Rightarrow> (Inl e, made')
                    | Inr a \<Rightarrow>
                        let train = py_slice shuffled None (Some a);
                            val = py_slice shuffled (Some a) (Some b);
                            test = py_slice shuffled (Some b) None
                        in (Inr (train, val, test),
                            made' @ copy_files train train_path move
                                  @ copy_files val val_path move
                                  @ (if 0 < length test then copy_files test test_path move
                                     else [])))"

section \<open>cv/pose/openpose/openpose.py\<close>

subsection \<open>The predictor classes\<close>

text \<open>
  A predictor is the pair of tables its \<open>_init__model_infor\<close> sets. \<open>BODY_PARTS\<close> is a
  dict from part name to channel index, in insertion order; \<open>POSE_PAIRS\<close> is the list of
  connected parts. The network handle and input size play no part below.
\<close>

record predictor =
  BODY_PARTS :: "(string \<times> nat) list"
  POSE_PAIRS :: "(string \<times> string) list"

definition COCOOpenPosePredictor :: predictor where
  "COCOOpenPosePredictor =
     \<lparr> BODY_PARTS =
         [(''Nose'', 0), (''Neck'', 1), (''RShoulder'', 2), (''RElbow'', 3), (''RWrist'', 4),
          (''LShoulder'', 5), (''LElbow'', 6), (''LWrist'', 7), (''RHip'', 8), (''RKnee'', 9),
          (''RAnkle'', 10), (''LHip'', 11), (''LKnee'', 12), (''LAnkle'', 13), (''REye'', 14),
          (''LEye'', 15), (''REar'', 16), (''LEar'', 17), (''Background'', 18)],
       POSE_PAIRS =
         [(''Neck'', ''RShoulder''), (''RShoulder'', ''RElbow''), (''RElbow'', ''RWrist''),
          (''Neck'', ''LShoulder''), (''LShoulder'', ''LElbow''), (''LElbow'', ''LWrist''),
          (''Neck'', ''RHip''), (''RHip'', ''RKnee''), (''RKnee'', ''RAnkle''),
          (''Neck'', ''LHip''), (''LHip'', ''LKnee''), (''LKnee'', ''LAnkle''),
          (''Neck'', ''Nose''), (''Nose'', ''REye''), (''REye'', ''REar''),
          (''Nose'', ''LEye''), (''LEye'', ''LEar'')] \<rparr>"

definition MPIOpenPosePredictor :: predictor where
  "MPIOpenPosePredictor =
     \<lparr> BODY_PARTS =
         [(''Head'', 0), (''Neck'', 1), (''RShoulder'', 2), (''RElbow'', 3), (''RWrist'', 4),
          (''LShoulder'', 5), (''LElbow'', 6), (''LWrist'', 7), (''RHip'', 8), (''RKnee'', 9),
          (''RAnkle'', 10), (''LHip'', 11), (''LKnee'', 12), (''LAnkle'', 13), (''Chest'', 14),
          (''Background'', 15)],
       POSE_PAIRS =
         [(''Head'', ''Neck''), (''Neck'', ''RShoulder''), (''RShoulder'', ''RElbow''),
          (''RElbow'', ''RWrist''), (''Neck'', ''LShoulder''), (''LShoulder'', ''LElbow''),
          (''LElbow'', ''LWrist''), (''Neck'', ''Chest''), (''Chest'', ''RHip''),
          (''RHip'', ''RKnee''), (''RKnee'', ''RAnkle''), (''Chest'', ''LHip''),
          (''LHip'', ''LKnee''), (''LKnee'', ''LAnkle'')] \<rparr>"

definition Body25OpenPosePredictor :: predictor where
  "Body25OpenPosePredictor =
     \<lparr> BODY_PARTS =
         [(''Nose'', 0), (''Neck'', 1), (''RShoulder'', 2), (''RElbow'', 3), (''RWrist'', 4),
          (''LShoulder'', 5), (''LElbow'', 6), (''LWrist'', 7), (''MidHip'', 8), (''RHip'', 9),
          (''RKnee'', 10), (''RAnkle'', 11), (''LHip'', 12), (''LKnee'', 13), (''LAnkle'', 14),
          (''REye'', 15), (''LEye'', 16), (''REar'', 17), (''LEar'', 18), (''LBigToe'', 19),
          (''LSmallToe'', 20), (''LHeel'', 21), (''RBigToe'', 22), (''RSmallToe'', 23),
          (''RHeel'', 24), (''Background'', 25)],
       POSE_PAIRS =
         [(''Neck'', ''Nose''), (''Neck'', ''RShoulder''), (''RShoulder'', ''RElbow''),
          (''RElbow'', ''RWrist''), (''Neck'', ''LShoulder''), (''LShoulder'', ''LElbow''),
          (''LElbow'', ''LWrist''), (''Nose'', ''REye''), (''REye'', ''REar''),
          (''Nose'', ''LEye''), (''LEye'', ''LEar''), (''Neck'', ''MidHip''),
          (''MidHip'', ''RHip''), (''RHip'', ''RKnee''), (''RKnee'', ''RAnkle''),
          (''RAnkle'', ''RBigToe''), (''RBigToe'', ''RSmallToe''), (''RAnkle'', ''RHeel''),
          (''MidHip'', ''LHip''), (''LHip'', ''LKnee''), (''LKnee'', ''LAnkle''),
          (''LAnkle'', ''LBigToe''), (''LBigToe'', ''LSmallToe''), (''LAnkle'', ''LHeel'')] \<rparr>"

subsection \<open>The network output and \<open>cv2.minMaxLoc\<close>\<close>

text \<open>
  The network output is a 4-D array: its shape and its entries, finite confidences.
  \<open>entry v b c r k\<close> is \<open>v[b, c, r, k]\<close>.
\<close>

record net_output =
  dim0 :: nat
  dim1 :: nat
  dim2 :: nat
  dim3 :: nat
  entry :: "nat \<Rightarrow> nat \<Rightarrow> nat \<Rightarrow> nat \<Rightarrow> rat"

text \<open>
  \<open>cv2.minMaxLoc\<close> scans a plane row by row and keeps the first position of the largest
  value; a location is \<open>(x, y) = (column, row)\<close>. Only the maximum and its location are
  used by the caller. An empty plane has no maximum, and what OpenCV does with one depends
  on its version (4.x reports the location \<open>(-1, -1)\<close>, after which the caller's division
  by the zero extent raises \<open>ZeroDivisionError\<close>); the model reports an error there and no
  property below is about an empty plane.
\<close>

definition positions :: "nat \<Rightarrow> nat \<Rightarrow> (nat \<times> nat) list" where
  "positions H W = concat (map (\<lambda>r. map (\<lambda>k. (r, k)) [0..<W]) [0..<H])"

fun scan_max :: "(nat \<Rightarrow> nat \<Rightarrow> rat) \<Rightarrow> (nat \<times> nat) list \<Rightarrow> rat \<times> nat \<times> nat \<Rightarrow> rat \<times> nat \<times> nat" where
  "scan_max f [] best = best"
| "scan_max f ((r, k) # ps) (v, loc) =
     scan_max f ps (if v < f r k then (f r k, (k, r)) else (v, loc))"

definition minMaxLoc :: "nat \<Rightarrow> nat \<Rightarrow> (nat \<Rightarrow> nat \<Rightarrow> rat) \<Rightarrow> py_error + rat \<times> nat \<times> nat" where
  "minMaxLoc H W probMap =
     (case positions H W of
        [] \<Rightarrow> Inl CvError
      | (r, k) # ps \<Rightarrow> Inr (scan_max probMap ps (probMap r k, (k, r))))"

subsection \<open>\<open>_parse_keypoints\<close> and \<open>predict\<close>\<close>

type_synonym keypoint = "(rat \<times> rat \<times> rat) option"

text \<open>The body of the loop for one channel index.\<close>

definition parse_channel :: "net_output \<Rightarrow> int \<times> int \<Rightarrow> rat \<Rightarrow> nat \<Rightarrow> py_error + keypoint" where
  "parse_channel net_ouput img_size threshold idx =
     (if \<not> (0 < dim0 net_ouput \<and> idx < dim1 net_ouput) then Inl IndexError
      else case minMaxLoc (dim2 net_ouput) (dim3 net_ouput) (entry net_ouput 0 idx) of
             Inl e \<Rightarrow> Inl e
           | Inr (prob, point) \<Rightarrow>
               (case int_truediv (fst img_size * int (fst point)) (int (dim3 net_ouput)) of
                  Inl e \<Rightarrow> Inl e
                | Inr x \<Rightarrow>
                    (case int_truediv (snd img_size * int (snd point)) (int (dim2 net_ouput)) of
                       Inl e \<Rightarrow> Inl e
                     | Inr y \<Rightarrow> if threshold < prob then Inr (Some (x, y, prob)) else Inr None)))"

fun parse_loop :: "net_output \<Rightarrow> int \<times> int \<Rightarrow> rat \<Rightarrow> nat list \<Rightarrow> py_error + keypoint list" where
  "parse_loop net_ouput img_size threshold [] = Inr []"
| "parse_loop net_ouput img_size threshold (idx # rest) =
     (case parse_channel net_ouput img_size threshold idx of
        Inl e \<Rightarrow> Inl e
      | Inr p \<Rightarrow>
          (case parse_loop net_ouput img_size threshold rest of
             Inl e \<Rightarrow> Inl e
           | Inr points \<Rightarrow> Inr (p # points)))"

definition parse_keypoints :: "predictor \<Rightarrow> net_output \<Rightarrow> int \<times> int \<Rightarrow> rat \<Rightarrow> py_error + keypoint list" where
  "parse_keypoints self net_ouput img_size threshold =
     parse_loop net_ouput img_size threshold [0..<length (BODY_PARTS self)]"

text \<open>
  \<open>predict\<close>: \<open>output\<close> is what the forward pass of the network returns for the image,
  \<open>img_shape\<close> the image's \<open>(height, width)\<close>.
\<close>

definition predict :: "predictor \<Rightarrow> net_output \<Rightarrow> int \<times> int \<Rightarrow> rat \<Rightarrow> py_error + keypoint list" where
  "predict self output img_shape threshold =
     (let img_h = fst img_shape; img_w = snd img_shape
      in parse_keypoints self output (img_w, img_h) threshold)"

subsection \<open>Images and the store\<close>

text \<open>
  An image is a mutable array, so it lives in a store and is passed by reference. Its
  content is the pixel data it was created with and the primitives OpenCV has drawn on it
  since, in order: the filled circle and the label of \<open>_visualize_points\<close> and the
  line of \<open>visualize\<close>, each with the integer pixel positions it is given. The drawing
  calls are taken to succeed: OpenCV refuses a position outside the range of a C
  \<open>int\<close>, a failure of the library that the model leaves out.
\<close>

datatype draw =
    Circle "int \<times> int"
  | PutText nat "int \<times> int"
  | Line "int \<times> int" "int \<times> int"

type_synonym 'p image = "'p \<times> draw list"

record 'p store =
  cells :: "nat \<Rightarrow> 'p image"
  next_free :: nat

definition ndarray_copy :: "nat \<Rightarrow> 'p store \<Rightarrow> nat \<times> 'p store" where
  "ndarray_copy img s =
     (next_free s, \<lparr> cells = (cells s)(next_free s := cells s img), next_free = Suc (next_free s) \<rparr>)"

definition cv2_draw :: "draw \<Rightarrow> nat \<Rightarrow> 'p store \<Rightarrow> 'p store" where
  "cv2_draw d img s =
     s\<lparr> cells := (cells s)(img := (fst (cells s img), snd (cells s img) @ [d])) \<rparr>"

subsection \<open>\<open>_visualize_points\<close> and \<open>visualize\<close>\<close>

fun visualize_points_loop ::
  "nat list \<Rightarrow> keypoint list \<Rightarrow> nat \<Rightarrow> bool \<Rightarrow> rat \<Rightarrow> 'p store \<Rightarrow> py_error option \<times> 'p store" where
  "visualize_points_loop [] keypoints img put_text threshold s = (None, s)"
| "visualize_points_loop (i # rest) keypoints img put_text threshold s =
     (case list_get keypoints i of
        Inl e \<Rightarrow> (Some e, s)
      | Inr None \<Rightarrow> visualize_points_loop rest keypoints img put_text threshold s
      | Inr (Some (x, y, prob)) \<Rightarrow>
          if threshold < prob
          then
            let s1 = cv2_draw (Circle (py_trunc x, py_trunc y)) img s;
                s2 = (if put_text then cv2_draw (PutText i (py_trunc x, py_trunc y)) img s1 else s1)
            in visualize_points_loop rest keypoints img put_text threshold s2
          else visualize_points_loop rest keypoints img put_text threshold s)"

definition visualize_points ::
  "predictor \<Rightarrow> keypoint list \<Rightarrow> nat \<Rightarrow> bool \<Rightarrow> rat \<Rightarrow> 'p store \<Rightarrow> (py_error + nat) \<times> 'p store" where
  "visualize_points self keypoints img put_text threshold s =
     (case visualize_points_loop [0..<length (BODY_PARTS self)] keypoints img put_text threshold s of
        (Some e, s') \<Rightarrow> (Inl e, s')
      | (None, s') \<Rightarrow> (Inr img, s'))"

fun skeleton_loop ::
  "predictor \<Rightarrow> (string \<times> string) list \<Rightarrow> keypoint list \<Rightarrow> nat \<Rightarrow> rat \<Rightarrow> 'p store
     \<Rightarrow> py_error option \<times> 'p store" where
  "skeleton_loop self [] keypoints img_copy threshold s = (None, s)"
| "skeleton_loop self (pair # rest) keypoints img_copy threshold s =
     (case dict_get (BODY_PARTS self) (fst pair) of
        Inl e \<Rightarrow> (Some e, s)
      | Inr p1 \<Rightarrow>
     (case dict_get (BODY_PARTS self) (snd pair) of
        Inl e \<Rightarrow> (Some e, s)
      | Inr p2 \<Rightarrow>
     (case list_get keypoints p1 of
        Inl e \<Rightarrow> (Some e, s)
      | Inr None \<Rightarrow> skeleton_loop self rest keypoints img_copy threshold s
      | Inr (Some (x1, y1, prob1)) \<Rightarrow>
          if \<not> threshold < prob1 then skeleton_loop self rest keypoints img_copy threshold s
          else
     (case list_get keypoints p2 of
        Inl e \<Rightarrow> (Some e, s)
      | Inr None \<Rightarrow> skeleton_loop self rest keypoints img_copy threshold s
      | Inr (Some (x2, y2, prob2)) \<Rightarrow>
          if threshold < prob2
          then skeleton_loop self rest keypoints img_copy threshold
                 (cv2_draw (Line (py_trunc x1, py_trunc y1) (py_trunc x2, py_trunc y2)) img_copy s)
          else skeleton_loop self rest keypoints img_copy threshold s))))"

definition visualize ::
  "predictor \<Rightarrow> keypoint list \<Rightarrow> nat \<Rightarrow> bool \<Rightarrow> rat \<Rightarrow> 'p store \<Rightarrow> (py_error + nat) \<times> 'p store" where
  "visualize self keypoints img put_text threshold s =
     (let (img_copy, s0) = ndarray_copy img s
      in case visualize_points self keypoints img_copy put_text threshold s0 of
           (Inl e, s1) \<Rightarrow> (Inl e, s1)
         | (Inr img_copy', s1) \<Rightarrow>
             (case skeleton_loop self (POSE_PAIRS self) keypoints img_copy' threshold s1 of
                (Some e, s2) \<Rightarrow> (Inl e, s2)
              | (None, s2) \<Rightarrow> (Inr img_copy', s2)))"

subsection \<open>\<open>add_keypoints_to_json\<close>\<close>

text \<open>
  The flat list mixes the float coordinates with the \<open>int\<close> \<open>missing_val\<close>, so a number
  of the record keeps its Python type. \<open>predict\<close> is called with its default threshold,
  the literal \<open>0.05\<close>.
\<close>

datatype py_num = PyInt int | PyFloat rat

record person =
  pose_keypoints :: "py_num list"

record pose_json =
  version :: py_num
  people :: "person list"

definition default_threshold :: rat where
  "default_threshold = round_mag (5 / 100)"

definition fill_missing :: "int \<Rightarrow> keypoint \<Rightarrow> py_num list" where
  "fill_missing missing_val p =
     (case p of
        None \<Rightarrow> replicate 3 (PyInt missing_val)
      | Some (x, y, prob) \<Rightarrow> [PyFloat x, PyFloat y, PyFloat prob])"

definition add_keypoints_to_json ::
  "predictor \<Rightarrow> net_output \<Rightarrow> int \<times> int \<Rightarrow> int \<Rightarrow> py_error + pose_json" where
  "add_keypoints_to_json pose_predictor output img_shape missing_val =
     (case predict pose_predictor output img_shape default_threshold of
        Inl e \<Rightarrow> Inl e
      | Inr points \<Rightarrow>
          let keypoints = map (fill_missing missing_val) points;
              keypoints = concat keypoints
          in Inr \<lparr> version = PyFloat 1, people = [\<lparr> pose_keypoints = keypoints \<rparr>] \<rparr>)"

section \<open>Notions used to state the properties\<close>

text \<open>The values of one channel's plane, and the edges a pose makes visible.\<close>

definition plane_values :: "net_output \<Rightarrow> nat \<Rightarrow> rat list" where
  "plane_values v idx = map (\<lambda>(r, k). entry v 0 idx r k) (positions (dim2 v) (dim3 v))"

text \<open>The exact linear rescaling of a map coordinate to an image coordinate.\<close>

definition rescale :: "int \<Rightarrow> nat \<Rightarrow> nat \<Rightarrow> rat" where
  "rescale extent p n = of_int extent * of_nat p / of_nat n"

definition well_formed :: "predictor \<Rightarrow> net_output \<Rightarrow> bool" where
  "well_formed self v \<longleftrightarrow>
     0 < dim0 v \<and> length (BODY_PARTS self) \<le> dim1 v \<and> 0 < dim2 v \<and> 0 < dim3 v"

definition visible :: "rat \<Rightarrow> keypoint \<Rightarrow> bool" where
  "visible threshold p = (case p of None \<Rightarrow> False | Some (x, y, prob) \<Rightarrow> threshold < prob)"

definition endpoint :: "predictor \<Rightarrow> keypoint list \<Rightarrow> string \<Rightarrow> keypoint" where
  "endpoint self keypoints part =
     (case map_of (BODY_PARTS self) part of
        None \<Rightarrow> None
      | Some p \<Rightarrow> if p < length keypoints then keypoints ! p else None)"

definition edge_of :: "predictor \<Rightarrow> keypoint list \<Rightarrow> rat \<Rightarrow> string \<times> string \<Rightarrow> draw list" where
  "edge_of self keypoints threshold pair =
     (case (endpoint self keypoints (fst pair), endpoint self keypoints (snd pair)) of
        (Some (x1, y1, prob1), Some (x2, y2, prob2)) \<Rightarrow>
          if threshold < prob1 \<and> threshold < prob2
          then [Line (py_trunc x1, py_trunc y1) (py_trunc x2, py_trunc y2)] else []
      | _ \<Rightarrow> [])"

definition is_line :: "draw \<Rightarrow> bool" where
  "is_line d = (case d of Line _ _ \<Rightarrow> True | _ \<Rightarrow> False)"

definition topology_ok :: "predictor \<Rightarrow> bool" where
  "topology_ok self \<longleftrightarrow>
     (\<forall>pair \<in> set (POSE_PAIRS self).
        (case map_of (BODY_PARTS self) (fst pair) of
           None \<Rightarrow> False | Some p \<Rightarrow> p < length (BODY_PARTS self)) \<and>
        (case map_of (BODY_PARTS self) (snd pair) of
           None \<Rightarrow> False | Some p \<Rightarrow> p < length (BODY_PARTS self)))"

section \<open>Sample inputs\<close>

text \<open>
  A network output for the COCO model on one image: 57 channels of 2 rows and 3 columns.
  The nose channel peaks at row 1, column 1; the background channel is flat and high; every
  other channel is flat and low.
\<close>

definition sample_output :: net_output where
  "sample_output =
     \<lparr> dim0 = 1, dim1 = 57, dim2 = 2, dim3 = 3,
       entry = (\<lambda>b c r k. if c = 0 \<and> r = 1 \<and> k = 1 then 9 / 10
                         else if c = 18 then 3 / 4 else 1 / 100) \<rparr>"

text \<open>The same output with different part-affinity channels (index 19 and above).\<close>

definition sample_output_paf :: net_output where
  "sample_output_paf =
     sample_output \<lparr> entry := (\<lambda>b c r k. if 19 \<le> c then 1 else entry sample_output b c r k) \<rparr>"

definition sample_pose :: "keypoint list" where
  "sample_pose =
     [Some (7505999378950827 / 35184372088832, 240, 9 / 10),
      None, None, None, None, None, None, None, None, None, None, None, None, None, None, None,
      None, None,
      Some (0, 0, 3 / 4)]"

text \<open>
  A COCO pose with the nose and the neck detected, the right shoulder below the default
  threshold and nothing else; and a store holding one untouched image at address 0.
\<close>

definition sample_keypoints :: "keypoint list" where
  "sample_keypoints =
     [Some (21 / 2, 20, 9 / 10), Some (10, 163 / 4, 4 / 5), Some (5, 40, 1 / 100),
      None, None, None, None, None, None, None, None, None, None, None, None, None,
      None, None, None]"

definition sample_store :: "nat store" where
  "sample_store = \<lparr> cells = (\<lambda>a. (a, [])), next_free = 1 \<rparr>"

text \<open>The record of \<open>sample_pose\<close> with missing value 0: 19 triples, 57 numbers.\<close>

definition sample_record :: pose_json where
  "sample_record =
     \<lparr> version = PyFloat 1,
       people =
         [\<lparr> pose_keypoints =
            [PyFloat (7505999378950827 / 35184372088832), PyFloat 240, PyFloat (9 / 10),
             PyInt 0, PyInt 0, PyInt 0, PyInt 0, PyInt 0, PyInt 0, PyInt 0, PyInt 0,
             PyInt 0, PyInt 0, PyInt 0, PyInt 0, PyInt 0, PyInt 0, PyInt 0, PyInt 0,
             PyInt 0, PyInt 0, PyInt 0, PyInt 0, PyInt 0, PyInt 0, PyInt 0, PyInt 0,
             PyInt 0, PyInt 0, PyInt 0, PyInt 0, PyInt 0, PyInt 0, PyInt 0, PyInt 0,
             PyInt 0, PyInt 0, PyInt 0, PyInt 0, PyInt 0, PyInt 0, PyInt 0, PyInt 0,
             PyInt 0, PyInt 0, PyInt 0, PyInt 0, PyInt 0, PyInt 0, PyInt 0, PyInt 0,
             PyInt 0, PyInt 0, PyInt 0,
             PyFloat 0, PyFloat 0, PyFloat (3 / 4)] \<rparr>] \<rparr>"

declare bitlen.simps [simp del]

section \<open>Properties of the rounding\<close>

lemma bitlen_pos: "0 < n \<Longrightarrow> 0 < bitlen n"
  by (subst bitlen.simps) simp

lemma bitlen_bounds: "0 < n \<Longrightarrow> 2 ^ (bitlen n - 1) \<le> n \<and> n < 2 ^ bitlen n"
proof (induction n rule: bitlen.induct)
  case (1 n)
  have b: "bitlen n = Suc (bitlen (n div 2))"
    using "1.prems" by (subst bitlen.simps) simp
  show ?case
  proof (cases "n div 2 = 0")
    case True
    then have "n = 1" using "1.prems" by (simp add: div_eq_0_iff) 
    moreover have "bitlen 0 = 0" by (subst bitlen.simps) simp
    ultimately show ?thesis using b by simp
  next
    case False
    then have IH: "2 ^ (bitlen (n div 2) - 1) \<le> n div 2 \<and> n div 2 < 2 ^ bitlen (n div 2)"
      using "1.IH" "1.prems" by simp
    have pos: "0 < bitlen (n div 2)" using False by (simp add: bitlen_pos)
    then have e: "(2::nat) ^ bitlen (n div 2) = 2 * 2 ^ (bitlen (n div 2) - 1)"
      by (cases "bitlen (n div 2)") simp_all
    have l: "2 * (n div 2) \<le> n" by simp
    have u: "n < 2 * (n div 2) + 2" by presburger
    have "(2::nat) ^ (bitlen n - 1) \<le> n" using IH e b l by simp linarith
    moreover have "n < 2 ^ bitlen n" using IH b u by simp
    ultimately show ?thesis by simp
  qed
qed

lemma of_nat_pow2_le: "2 ^ k \<le> n \<Longrightarrow> (2::rat) ^ k \<le> of_nat n"
proof -
  assume "2 ^ k \<le> n"
  then have "(of_nat (2 ^ k) :: rat) \<le> of_nat n" by (simp only: of_nat_le_iff)
  then show ?thesis by simp
qed

lemma of_nat_less_pow2: "n < 2 ^ k \<Longrightarrow> (of_nat n :: rat) < 2 ^ k"
proof -
  assume "n < 2 ^ k"
  then have "(of_nat n :: rat) < of_nat (2 ^ k)" by (simp only: of_nat_less_iff)
  then show ?thesis by simp
qed

lemma powi2_diff_nat: "(2::rat) powi (int a - int b) = 2 ^ a / 2 ^ b"
  by (simp add: power_int_diff)

lemma binade_bounds:
  assumes "0 < x"
  shows "2 powi binade x \<le> x \<and> x < 2 powi (binade x + 1)"
proof -
  obtain p q where pq: "quotient_of x = (p, q)" by (cases "quotient_of x")
  have q: "0 < q" using pq quotient_of_denom_pos by blast
  have x: "x = of_int p / of_int q" using pq quotient_of_div by blast
  have p: "0 < p" using assms q x by (simp add: zero_less_divide_iff)
  define P where "P = nat p"
  define Q where "Q = nat q"
  have P: "0 < P" "of_int p = (of_nat P :: rat)" using p by (simp_all add: P_def)
  have Q: "0 < Q" "of_int q = (of_nat Q :: rat)" using q by (simp_all add: Q_def)
  define k where "k = int (bitlen P) - int (bitlen Q)"
  have bP: "2 ^ (bitlen P - 1) \<le> P" "P < 2 ^ bitlen P" using bitlen_bounds[OF P(1)] by auto
  have bQ: "2 ^ (bitlen Q - 1) \<le> Q" "Q < 2 ^ bitlen Q" using bitlen_bounds[OF Q(1)] by auto
  have xe: "x = of_nat P / of_nat Q" using x P(2) Q(2) by simp
  have Qr: "(0::rat) < of_nat Q" using Q(1) by simp
  have Pr: "(0::rat) < of_nat P" using P(1) by simp
  have rP: "(2::rat) ^ (bitlen P - 1) \<le> of_nat P" "(of_nat P :: rat) < 2 ^ bitlen P"
    using bP by (simp_all only: of_nat_pow2_le of_nat_less_pow2)
  have rQ: "(2::rat) ^ (bitlen Q - 1) \<le> of_nat Q" "(of_nat Q :: rat) < 2 ^ bitlen Q"
    using bQ by (simp_all only: of_nat_pow2_le of_nat_less_pow2)
  have up: "x < 2 powi (k + 1)"
  proof -
    have "int (bitlen Q) - 1 = int (bitlen Q - 1)" using bitlen_pos[OF Q(1)] by simp
    then have "k + 1 = int (bitlen P) - int (bitlen Q - 1)" unfolding k_def by linarith
    then have e: "(2::rat) powi (k + 1) = 2 ^ bitlen P / 2 ^ (bitlen Q - 1)"
      by (simp only: powi2_diff_nat)
    have "of_nat P / of_nat Q < (2::rat) ^ bitlen P / 2 ^ (bitlen Q - 1)"
      by (rule frac_less) (use rP rQ Pr in simp_all)
    then show ?thesis using e xe by simp
  qed
  have lo: "2 powi (k - 1) \<le> x"
  proof -
    have "int (bitlen P) - 1 = int (bitlen P - 1)" using bitlen_pos[OF P(1)] by simp
    then have "k - 1 = int (bitlen P - 1) - int (bitlen Q)" unfolding k_def by linarith
    then have e: "(2::rat) powi (k - 1) = 2 ^ (bitlen P - 1) / 2 ^ bitlen Q"
      by (simp only: powi2_diff_nat)
    have "(2::rat) ^ (bitlen P - 1) / 2 ^ bitlen Q \<le> of_nat P / of_nat Q"
      by (rule frac_le) (use rP rQ Qr in simp_all)
    then show ?thesis using e xe by simp
  qed
  have b: "binade x = (if 2 powi k \<le> x then k else k - 1)"
    unfolding binade_def pq k_def P_def Q_def by (simp only: Let_def split_conv)
  show ?thesis
  proof (cases "2 powi k \<le> x")
    case True
    then show ?thesis using b up by simp
  next
    case False
    then show ?thesis using b lo by simp
  qed
qed

lemma powi2_mono: "a \<le> b \<Longrightarrow> (2::rat) powi a \<le> 2 powi b"
  by (rule power_int_increasing) simp_all

lemma powi2_less_imp: "(2::rat) powi a < 2 powi b \<Longrightarrow> a < b"
  using powi2_mono [of b a] by (cases "a < b") auto

lemma binade_unique:
  assumes "2 powi e \<le> x" "x < 2 powi (e + 1)"
  shows "binade x = e"
proof -
  have "(0::rat) < 2 powi e" by simp
  then have pos: "0 < x" using assms(1) by linarith
  from binade_bounds[OF pos] have b: "2 powi binade x \<le> x" "x < 2 powi (binade x + 1)" by auto
  have "(2::rat) powi e < 2 powi (binade x + 1)" using assms(1) b(2) by simp
  then have 1: "e < binade x + 1" by (rule powi2_less_imp)
  have "(2::rat) powi binade x < 2 powi (e + 1)" using assms(2) b(1) by simp
  then have 2: "binade x < e + 1" by (rule powi2_less_imp)
  from 1 2 show ?thesis by simp
qed

lemma binade_mono:
  assumes "0 < x" "x \<le> y"
  shows "binade x \<le> binade y"
proof -
  have "0 < y" using assms by simp
  from binade_bounds[OF assms(1)] binade_bounds[OF this]
  have "(2::rat) powi binade x < 2 powi (binade y + 1)" using assms(2) by simp
  then have "binade x < binade y + 1" by (rule powi2_less_imp)
  then show ?thesis by simp
qed

lemma round_half_even_of_int [simp]: "round_half_even (of_int k) = k"
  by (simp add: round_half_even_def)

lemma round_half_even_error: "\<bar>of_int (round_half_even x) - x\<bar> \<le> 1 / 2"
proof -
  have "of_int \<lfloor>x\<rfloor> \<le> x" "x < of_int \<lfloor>x\<rfloor> + 1" by linarith+
  then show ?thesis
    by (auto simp: round_half_even_def Let_def abs_le_iff)
qed

lemma round_half_even_mono:
  assumes "x \<le> y"
  shows "round_half_even x \<le> round_half_even y"
proof (rule ccontr)
  assume neg: "\<not> round_half_even x \<le> round_half_even y"
  then have "round_half_even y + 1 \<le> round_half_even x" by simp
  then have i: "(of_int (round_half_even y) :: rat) + 1 \<le> of_int (round_half_even x)"
    by (metis of_int_1 of_int_add of_int_le_iff)
  have "x = y"
    using i round_half_even_error[of x] round_half_even_error[of y] assms
    by (simp add: abs_le_iff)
  then show False using neg by simp
qed


lemma quantum_bexp: "quantum a = 2 powi (bexp a - 52)"
  by (simp add: quantum_def bexp_def)

lemma quantum_pos: "0 < quantum a"
  by (simp add: quantum_def)

lemma powi2_split: "(2::rat) powi (e + 1) = 2 ^ 53 * 2 powi (e - 52)"
proof -
  have "e + 1 = 53 + (e - 52)" by simp
  then have "(2::rat) powi (e + 1) = 2 powi (53 + (e - 52))" by (simp only:)
  also have "\<dots> = 2 powi 53 * 2 powi (e - 52)" by (subst power_int_add) simp_all
  finally show ?thesis by simp
qed

lemma powi2_split0: "(2::rat) powi e = 2 ^ 52 * 2 powi (e - 52)"
proof -
  have "e = 52 + (e - 52)" by simp
  then have "(2::rat) powi e = 2 powi (52 + (e - 52))" by (simp only:)
  also have "\<dots> = 2 powi 52 * 2 powi (e - 52)" by (subst power_int_add) simp_all
  finally show ?thesis by simp
qed

lemma below_next_binade: "0 < a \<Longrightarrow> a < 2 powi (bexp a + 1)"
proof -
  assume "0 < a"
  then have "a < 2 powi (binade a + 1)" using binade_bounds by blast
  also have "\<dots> \<le> 2 powi (bexp a + 1)" by (rule powi2_mono) (simp add: bexp_def)
  finally show ?thesis .
qed

lemma round_mag_nonneg: "0 \<le> a \<Longrightarrow> 0 \<le> round_mag a"
proof -
  assume a: "0 \<le> a"
  have "0 \<le> a / quantum a" using a quantum_pos[of a] by simp
  then have "round_half_even 0 \<le> round_half_even (a / quantum a)" by (rule round_half_even_mono)
  then have "0 \<le> round_half_even (a / quantum a)" using round_half_even_of_int[of 0] by simp
  then show ?thesis using quantum_pos[of a] by (simp add: round_mag_def)
qed

lemma round_mag_upper:
  assumes "0 < a"
  shows "round_mag a \<le> 2 powi (bexp a + 1)"
proof -
  let ?q = "quantum a"
  have q: "0 < ?q" by (rule quantum_pos)
  have "a \<le> 2 ^ 53 * ?q"
    using below_next_binade[OF assms] by (simp add: powi2_split quantum_bexp)
  then have "a / ?q \<le> of_int (2 ^ 53)" using q by (simp add: pos_divide_le_eq)
  then have "round_half_even (a / ?q) \<le> round_half_even (of_int (2 ^ 53))"
    by (rule round_half_even_mono)
  then have "round_half_even (a / ?q) \<le> 2 ^ 53" by (simp only: round_half_even_of_int)
  then have "(of_int (round_half_even (a / ?q)) :: rat) \<le> of_int (2 ^ 53)"
    by (simp only: of_int_le_iff)
  then have "of_int (round_half_even (a / ?q)) * ?q \<le> 2 ^ 53 * ?q"
    using q by simp
  then show ?thesis using assms by (simp add: round_mag_def powi2_split quantum_bexp)
qed

lemma round_mag_lower:
  assumes "0 < a" "- 1022 \<le> binade a"
  shows "2 powi (bexp a) \<le> round_mag a"
proof -
  let ?q = "quantum a"
  have q: "0 < ?q" by (rule quantum_pos)
  have be: "bexp a = binade a" using assms(2) by (simp add: bexp_def)
  have "2 powi (bexp a) \<le> a" using binade_bounds[OF assms(1)] be by simp
  then have "2 ^ 52 * ?q \<le> a" using powi2_split0[of "bexp a"] by (simp add: quantum_bexp)
  then have "of_int (2 ^ 52) \<le> a / ?q" using q by (simp add: pos_le_divide_eq)
  then have "round_half_even (of_int (2 ^ 52)) \<le> round_half_even (a / ?q)"
    by (rule round_half_even_mono)
  then have "2 ^ 52 \<le> round_half_even (a / ?q)" by (simp only: round_half_even_of_int)
  then have "(of_int (2 ^ 52) :: rat) \<le> of_int (round_half_even (a / ?q))"
    by (simp only: of_int_le_iff)
  then have "2 ^ 52 * ?q \<le> of_int (round_half_even (a / ?q)) * ?q"
    using q by simp
  then show ?thesis using assms(1) powi2_split0[of "bexp a"] by (simp add: round_mag_def quantum_bexp)
qed

lemma round_mag_mono:
  assumes "0 \<le> a" "a \<le> b"
  shows "round_mag a \<le> round_mag b"
proof (cases "a = 0")
  case True
  then show ?thesis using round_mag_nonneg[of b] assms by (simp add: round_mag_def)
next
  case False
  then have a: "0 < a" using assms(1) by simp
  then have b: "0 < b" using assms(2) by simp
  have le: "bexp a \<le> bexp b" using binade_mono[OF a assms(2)] by (simp add: bexp_def)
  show ?thesis
  proof (cases "bexp a = bexp b")
    case True
    then have q: "quantum a = quantum b" by (simp add: quantum_bexp)
    have "a / quantum b \<le> b / quantum b" using assms(2) quantum_pos[of b] by (simp add: divide_right_mono)
    then have "round_half_even (a / quantum b) \<le> round_half_even (b / quantum b)"
      by (rule round_half_even_mono)
    then have "(of_int (round_half_even (a / quantum b)) :: rat) \<le> of_int (round_half_even (b / quantum b))"
      by (simp only: of_int_le_iff)
    then have "of_int (round_half_even (a / quantum b)) * quantum b
                 \<le> of_int (round_half_even (b / quantum b)) * quantum b"
      using quantum_pos[of b] by simp
    then show ?thesis using a b q by (simp add: round_mag_def)
  next
    case False
    then have lt: "bexp a + 1 \<le> bexp b" using le by simp
    then have "- 1022 \<le> binade b" by (simp add: bexp_def max_def split: if_splits)
    then have "2 powi (bexp b) \<le> round_mag b" using round_mag_lower[OF b] by simp
    moreover have "round_mag a \<le> 2 powi (bexp a + 1)" by (rule round_mag_upper[OF a])
    moreover have "(2::rat) powi (bexp a + 1) \<le> 2 powi (bexp b)" using lt by (rule powi2_mono)
    ultimately show ?thesis by linarith
  qed
qed

lemma round_mag_error:
  "\<bar>round_mag a - a\<bar> \<le> quantum a / 2"
proof (cases "a = 0")
  case True
  then show ?thesis using quantum_pos[of a] by (simp add: round_mag_def)
next
  case False
  let ?q = "quantum a"
  have q: "0 < ?q" by (rule quantum_pos)
  have "round_mag a - a = (of_int (round_half_even (a / ?q)) - a / ?q) * ?q"
    using False q by (simp add: round_mag_def algebra_simps)
  then have "\<bar>round_mag a - a\<bar> = \<bar>of_int (round_half_even (a / ?q)) - a / ?q\<bar> * ?q"
    using q by (simp add: abs_mult)
  also have "\<dots> \<le> 1 / 2 * ?q"
    using round_half_even_error[of "a / ?q"] q by (intro mult_right_mono) simp_all
  finally show ?thesis by simp
qed

lemma round_mag_eval:
  assumes "2 powi e \<le> a" "a < 2 powi (e + 1)" "- 1022 \<le> e"
  shows "round_mag a = of_int (round_half_even (a / 2 powi (e - 52))) * 2 powi (e - 52)"
proof -
  have "(0::rat) < 2 powi e" by simp
  then have a: "0 < a" using assms(1) by linarith
  have "binade a = e" using assms(1,2) by (rule binade_unique)
  then have q: "quantum a = 2 powi (e - 52)" using assms(3) by (simp add: quantum_def)
  have "a \<noteq> 0" using a by simp
  then show ?thesis unfolding round_mag_def q by (simp only: if_False)
qed

lemma round_mag_eval_sub:
  assumes "0 < a" "a < 2 powi (- 1022)"
  shows "round_mag a = of_int (round_half_even (a / 2 powi (- 1074))) * 2 powi (- 1074)"
proof -
  have "(2::rat) powi binade a < 2 powi (- 1022)" using binade_bounds[OF assms(1)] assms(2) by linarith
  then have "binade a < - 1022" by (rule powi2_less_imp)
  then have "max (binade a) (- 1022) - 52 = - 1074" by simp
  then have q: "quantum a = 2 powi (- 1074)" unfolding quantum_def by (simp only:)
  have "a \<noteq> 0" using assms(1) by simp
  then show ?thesis unfolding round_mag_def q by (simp only: if_False)
qed


lemma round_half_even_frac:
  assumes "0 < q"
  shows "round_half_even (of_int p / of_int q) =
           (if 2 * (p mod q) < q then p div q
            else if q < 2 * (p mod q) then p div q + 1
            else if even (p div q) then p div q else p div q + 1)"
proof -
  have f: "\<lfloor>(of_int p / of_int q :: rat)\<rfloor> = p div q" by (rule floor_divide_of_int_eq)
  have "(of_int p :: rat) = of_int (p div q * q + p mod q)" by simp
  then have "(of_int p :: rat) = of_int (p div q) * of_int q + of_int (p mod q)"
    by (simp only: of_int_add of_int_mult)
  then have d: "(of_int p / of_int q :: rat) - of_int (p div q) = of_int (p mod q) / of_int q"
    using assms by (simp add: field_simps)
  have h1: "(of_int (p mod q) / of_int q :: rat) < 1 / 2 \<longleftrightarrow> 2 * (p mod q) < q"
  proof -
    have "(of_int (p mod q) / of_int q :: rat) < 1 / 2 \<longleftrightarrow> (of_int (2 * (p mod q)) :: rat) < of_int q"
      using assms by (simp add: field_simps)
    then show ?thesis by (simp only: of_int_less_iff)
  qed
  have h2: "1 / 2 < (of_int (p mod q) / of_int q :: rat) \<longleftrightarrow> q < 2 * (p mod q)"
  proof -
    have "1 / 2 < (of_int (p mod q) / of_int q :: rat) \<longleftrightarrow> (of_int q :: rat) < of_int (2 * (p mod q))"
      using assms by (simp add: field_simps)
    then show ?thesis by (simp only: of_int_less_iff)
  qed
  show ?thesis
    unfolding round_half_even_def Let_def f d h1 h2 ..
qed

lemma round_half_even_numeral_frac:
  "round_half_even (numeral a / numeral b) =
     (if 2 * (numeral a mod numeral b) < (numeral b :: int) then numeral a div numeral b
      else if numeral b < 2 * (numeral a mod numeral b :: int) then numeral a div numeral b + 1
      else if even (numeral a div numeral b :: int) then numeral a div numeral b
      else numeral a div numeral b + 1)"
  using round_half_even_frac[of "numeral b" "numeral a"] by simp

lemma round_half_even_numeral: "round_half_even (numeral n) = numeral n"
  using round_half_even_of_int[of "numeral n"] by simp

lemma round_half_even_0: "round_half_even 0 = 0"
  using round_half_even_of_int[of 0] by simp

lemma round_half_even_1: "round_half_even 1 = 1"
  using round_half_even_of_int[of 1] by simp

lemma round_half_even_inverse_numeral:
  "round_half_even (1 / numeral b) =
     (if 2 * (1 mod numeral b) < (numeral b :: int) then 1 div numeral b
      else if numeral b < 2 * (1 mod numeral b :: int) then 1 div numeral b + 1
      else if even (1 div numeral b :: int) then 1 div numeral b
      else 1 div numeral b + 1)"
  using round_half_even_frac[of "numeral b" 1] by simp

lemmas round_half_even_eval =
  round_half_even_numeral_frac round_half_even_numeral round_half_even_0 round_half_even_1
  round_half_even_inverse_numeral

lemma round_double_eval:
  assumes "2 powi e \<le> \<bar>x\<bar>" "\<bar>x\<bar> < 2 powi (e + 1)" "- 1022 \<le> e" "e \<le> 1022"
  shows "round_double x =
           Finite (if x < 0 then - (of_int (round_half_even (\<bar>x\<bar> / 2 powi (e - 52))) * 2 powi (e - 52))
                   else of_int (round_half_even (\<bar>x\<bar> / 2 powi (e - 52))) * 2 powi (e - 52))"
proof -
  have "(0::rat) < 2 powi e" by simp
  then have a: "0 < \<bar>x\<bar>" using assms(1) by linarith
  have be: "binade \<bar>x\<bar> = e" using assms(1,2) by (rule binade_unique)
  then have "bexp \<bar>x\<bar> = e" using assms(3) by (simp add: bexp_def)
  then have "round_mag \<bar>x\<bar> \<le> 2 powi (e + 1)" using round_mag_upper[OF a] by simp
  also have "\<dots> \<le> 2 powi 1023" using assms(4) by (intro powi2_mono) simp
  also have "\<dots> < 2 powi 1024" by (rule power_int_strict_increasing) simp_all
  finally have "round_mag \<bar>x\<bar> < 2 ^ 1024" by simp
  then have "\<not> 2 ^ 1024 \<le> round_mag \<bar>x\<bar>" by simp
  then have "round_double x = Finite (if x < 0 then - round_mag \<bar>x\<bar> else round_mag \<bar>x\<bar>)"
    unfolding round_double_def Let_def by (simp only: if_False)
  then show ?thesis using round_mag_eval[OF assms(1,2,3)] by (simp only:)
qed

lemma round_double_0: "round_double 0 = Finite 0"
  by (simp add: round_double_def round_mag_def)

section \<open>Properties of \<open>random_split\<close>\<close>

subsection \<open>Cut indices, slices and the shuffle\<close>

lemma round_double_nonneg:
  assumes "0 \<le> x"
  shows "round_double x = (if 2 ^ 1024 \<le> round_mag x then PInf else Finite (round_mag x))"
proof (cases "x = 0")
  case True
  then show ?thesis by (simp add: round_double_def round_mag_def)
next
  case False
  then have "0 < x" using assms by simp
  then show ?thesis by (simp add: round_double_def Let_def)
qed

lemma is_double_round_mag:
  assumes "is_double t" "0 \<le> t"
  shows "round_mag t = t"
  using assms unfolding is_double_def round_double_nonneg[OF assms(2)]
  by (simp split: if_splits)

lemma round_mag_pow63: "round_mag (2 ^ 63) = 2 ^ 63"
  using round_mag_eval[of 63 "2 ^ 63"] by (simp add: round_half_even_eval)

lemma round_double_small:
  assumes "0 \<le> x" "x \<le> 2 ^ 63"
  shows "round_double x = Finite (round_mag x)" "0 \<le> round_mag x" "round_mag x \<le> 2 ^ 63"
proof -
  show nn: "0 \<le> round_mag x" using assms(1) by (rule round_mag_nonneg)
  show le: "round_mag x \<le> 2 ^ 63"
    using round_mag_mono[OF assms] round_mag_pow63 by simp
  have "(2::rat) ^ 63 < 2 ^ 1024" by simp
  then have "\<not> 2 ^ 1024 \<le> round_mag x" using le by linarith
  then show "round_double x = Finite (round_mag x)"
    using round_double_nonneg[OF assms(1)] by (simp only: if_False)
qed

lemma float_of_int_nat:
  assumes "n < 2 ^ 63"
  shows "float_of_int (int n) = Inr (Finite (round_mag (of_nat n)))"
proof -
  have "(of_nat n :: rat) \<le> of_nat (2 ^ 63)" using assms by (simp only: of_nat_le_iff less_imp_le)
  then have "(of_nat n :: rat) \<le> 2 ^ 63" by simp
  then have "round_double (of_nat n) = Finite (round_mag (of_nat n))"
    by (intro round_double_small) simp
  then show ?thesis by (simp add: float_of_int_def)
qed

lemma nat_scale_bounds:
  assumes "n < 2 ^ 63"
  shows "0 \<le> round_mag (of_nat n)" "round_mag (of_nat n) \<le> 2 ^ 63"
proof -
  have "(of_nat n :: rat) \<le> of_nat (2 ^ 63)" using assms by (simp only: of_nat_le_iff less_imp_le)
  then have le: "(of_nat n :: rat) \<le> 2 ^ 63" by simp
  show "0 \<le> round_mag (of_nat n)" by (rule round_mag_nonneg) simp
  show "round_mag (of_nat n) \<le> 2 ^ 63" using le by (intro round_double_small) simp
qed

lemma cut_index_valid:
  assumes "n < 2 ^ 63" "0 \<le> r" "r \<le> 1"
  shows "cut_index n (Finite r) = Inr \<lfloor>round_mag (round_mag (of_nat n) * r)\<rfloor>"
    and "0 \<le> \<lfloor>round_mag (round_mag (of_nat n) * r)\<rfloor>"
proof -
  let ?N = "round_mag (of_nat n)"
  have N: "0 \<le> ?N" "?N \<le> 2 ^ 63" using nat_scale_bounds[OF assms(1)] by auto
  have p: "0 \<le> ?N * r" using N(1) assms(2) by simp
  have "?N * r \<le> ?N * 1" using N(1) assms(3) by (intro mult_left_mono) simp_all
  then have q: "?N * r \<le> 2 ^ 63" using N(2) by simp
  have rd: "round_double (?N * r) = Finite (round_mag (?N * r))" using p q by (rule round_double_small)
  have nn: "0 \<le> round_mag (?N * r)" using p by (rule round_mag_nonneg)
  show "cut_index n (Finite r) = Inr \<lfloor>round_mag (?N * r)\<rfloor>"
    using nn by (simp add: cut_index_def float_of_int_nat[OF assms(1)] rd py_trunc_def)
  show "0 \<le> \<lfloor>round_mag (?N * r)\<rfloor>" using nn by simp
qed

lemma cut_index_mono:
  assumes "n < 2 ^ 63" "0 \<le> r" "r \<le> r'"
  shows "\<lfloor>round_mag (round_mag (of_nat n) * r)\<rfloor> \<le> \<lfloor>round_mag (round_mag (of_nat n) * r')\<rfloor>"
proof -
  let ?N = "round_mag (of_nat n)"
  have N: "0 \<le> ?N" using nat_scale_bounds[OF assms(1)] by auto
  have "?N * r \<le> ?N * r'" using N assms(3) by (intro mult_left_mono) simp_all
  moreover have "0 \<le> ?N * r" using N assms(2) by simp
  ultimately have "round_mag (?N * r) \<le> round_mag (?N * r')" by (intro round_mag_mono)
  then show ?thesis by (rule floor_mono)
qed

lemma ratio_sum_valid:
  assumes "is_double t" "0 \<le> t" "0 \<le> v" "float_le (float_add (Finite t) (Finite v)) (Finite 1)"
  shows "float_add (Finite t) (Finite v) = Finite (round_mag (t + v))"
    and "t \<le> round_mag (t + v)" and "round_mag (t + v) \<le> 1"
proof -
  have nn: "0 \<le> t + v" using assms(2,3) by simp
  have fin: "\<not> 2 ^ 1024 \<le> round_mag (t + v)"
    using assms(4) round_double_nonneg[OF nn] by (auto split: if_splits)
  then show e: "float_add (Finite t) (Finite v) = Finite (round_mag (t + v))"
    using round_double_nonneg[OF nn] by simp
  show "round_mag (t + v) \<le> 1" using assms(4) e by simp
  have "round_mag t \<le> round_mag (t + v)" using assms(2,3) by (intro round_mag_mono) simp_all
  then show "t \<le> round_mag (t + v)" using is_double_round_mag[OF assms(1,2)] by simp
qed

lemma mset_swap': "i < length xs \<Longrightarrow> j < length xs \<Longrightarrow> mset (swap i j xs) = mset xs"
  unfolding swap_def by (simp add: mset_swap)

lemma length_swap [simp]: "length (swap i j xs) = length xs"
  by (simp add: swap_def)

lemma shuffle_loop_props:
  "k < length xs \<Longrightarrow> mset (shuffle_loop rng k xs) = mset xs \<and> length (shuffle_loop rng k xs) = length xs"
proof (induction k arbitrary: xs)
  case 0
  then show ?case by simp
next
  case (Suc k)
  have j: "rng (Suc k) mod (Suc k + 1) < length xs"
    using Suc.prems by (metis Suc_eq_plus1 Suc_leI less_le_trans mod_less_divisor zero_less_Suc)
  have "k < length (swap (Suc k) (rng (Suc k) mod (Suc k + 1)) xs)" using Suc.prems by simp
  from Suc.IH[OF this] show ?case
    using mset_swap'[OF Suc.prems j] by simp
qed

lemma shuffle_props: "mset (shuffle rng xs) = mset xs \<and> length (shuffle rng xs) = length xs"
proof (cases xs)
  case Nil
  then show ?thesis by (simp add: shuffle_def)
next
  case (Cons a list)
  then have "length xs - 1 < length xs" by simp
  then show ?thesis unfolding shuffle_def by (rule shuffle_loop_props)
qed

lemma py_slice_cuts:
  assumes "0 \<le> a" "a \<le> b"
  shows "py_slice xs None (Some a) = take (nat a) xs"
    and "py_slice xs (Some a) (Some b) = take (nat b - nat a) (drop (nat a) xs)"
    and "py_slice xs (Some b) None = drop (nat b) xs"
  using assms by (auto simp: py_slice_def slice_index_def Let_def min_def)

lemma cuts_partition:
  "take a xs @ take (b - a) (drop a xs) @ drop b xs = xs" if "a \<le> b" for a b :: nat
proof -
  have "take (b - a) (drop a xs) @ drop b xs = drop a xs"
    using that by (metis add_diff_inverse_nat append_take_drop_id drop_drop not_less add.commute)
  then show ?thesis by simp
qed

lemma random_split_valid:
  assumes "fp \<noteq> []" "length fp < 2 ^ 63" "is_double t" "0 \<le> t" "0 \<le> v"
    and "float_le (float_add (Finite t) (Finite v)) (Finite 1)"
  shows "\<lfloor>round_mag (round_mag (of_nat (length fp)) * t)\<rfloor>
           \<le> \<lfloor>round_mag (round_mag (of_nat (length fp)) * round_mag (t + v))\<rfloor>"
    and "0 \<le> \<lfloor>round_mag (round_mag (of_nat (length fp)) * t)\<rfloor>"
    and "cut_index (length fp) (Finite t) = Inr \<lfloor>round_mag (round_mag (of_nat (length fp)) * t)\<rfloor>"
    and "cut_index (length fp) (float_add (Finite t) (Finite v))
           = Inr \<lfloor>round_mag (round_mag (of_nat (length fp)) * round_mag (t + v))\<rfloor>"
    and "fst (random_split rng fp output_path (Finite t) (Finite v) move name) =
           Inr (take (nat \<lfloor>round_mag (round_mag (of_nat (length fp)) * t)\<rfloor>) (shuffle rng fp),
                take (nat \<lfloor>round_mag (round_mag (of_nat (length fp)) * round_mag (t + v))\<rfloor>
                        - nat \<lfloor>round_mag (round_mag (of_nat (length fp)) * t)\<rfloor>)
                  (drop (nat \<lfloor>round_mag (round_mag (of_nat (length fp)) * t)\<rfloor>) (shuffle rng fp)),
                drop (nat \<lfloor>round_mag (round_mag (of_nat (length fp)) * round_mag (t + v))\<rfloor>)
                  (shuffle rng fp))"
proof -
  let ?n = "length fp"
  let ?s = "round_mag (t + v)"
  let ?a = "\<lfloor>round_mag (round_mag (of_nat ?n) * t)\<rfloor>"
  let ?b = "\<lfloor>round_mag (round_mag (of_nat ?n) * ?s)\<rfloor>"
  note sum = ratio_sum_valid[OF assms(3,4,5,6)]
  have t1: "t \<le> 1" using sum(2,3) by linarith
  have s0: "0 \<le> ?s" using sum(2) assms(4) by linarith
  show ab: "?a \<le> ?b" using assms(2,4) sum(2) by (rule cut_index_mono)
  show a0: "0 \<le> ?a" using assms(2,4) t1 by (rule cut_index_valid(2))
  show ca: "cut_index ?n (Finite t) = Inr ?a" using assms(2,4) t1 by (rule cut_index_valid(1))
  have "cut_index ?n (Finite ?s) = Inr ?b" using assms(2) s0 sum(3) by (rule cut_index_valid(1))
  then show cb: "cut_index ?n (float_add (Finite t) (Finite v)) = Inr ?b" by (simp only: sum(1))
  have n: "0 < ?n" using assms(1) by simp
  show "fst (random_split rng fp output_path (Finite t) (Finite v) move name) =
           Inr (take (nat ?a) (shuffle rng fp),
                take (nat ?b - nat ?a) (drop (nat ?a) (shuffle rng fp)),
                drop (nat ?b) (shuffle rng fp))"
    unfolding random_split_def Let_def
    using assms(6) n by (simp add: ca cb py_slice_cuts[OF a0 ab] del: float_add.simps)
qed

subsection \<open>Values of the literals used below\<close>

lemma round_double_1: "round_double 1 = Finite 1"
  using round_double_eval[of 0 1] by (simp add: round_half_even_eval)

lemma round_double_2: "round_double 2 = Finite 2"
  using round_double_eval[of 1 2] by (simp add: round_half_even_eval)

lemma round_double_half: "round_double (1 / 2) = Finite (1 / 2)"
  using round_double_eval[of "- 1" "1 / 2"] by (simp add: round_half_even_eval)

lemma round_double_quarter: "round_double (1 / 4) = Finite (1 / 4)"
  using round_double_eval[of "- 2" "1 / 4"] by (simp add: round_half_even_eval)

lemma round_double_3quarter: "round_double (3 / 4) = Finite (3 / 4)"
  using round_double_eval[of "- 1" "3 / 4"] by (simp add: round_half_even_eval)

lemma round_double_3: "round_double 3 = Finite 3"
  using round_double_eval[of 1 3] by (simp add: round_half_even_eval)

lemma round_double_neg_3half: "round_double (- (3 / 2)) = Finite (- (3 / 2))"
  using round_double_eval[of 0 "- (3 / 2)"] by (simp add: round_half_even_eval)

lemma round_double_3half: "round_double (3 / 2) = Finite (3 / 2)"
  using round_double_eval[of 0 "3 / 2"] by (simp add: round_half_even_eval)

lemma floor_neg_3half: "\<lfloor>- (3 / 2) :: rat\<rfloor> = - 2"
  using floor_divide_of_int_eq[of "- 3" 2, where ?'a = rat] by simp

lemma py_trunc_neg_3half: "py_trunc (- (3 / 2)) = - 1"
proof -
  have "\<lfloor>(3 / 2) :: rat\<rfloor> = 1"
    using floor_divide_of_int_eq[of 3 2, where ?'a = rat] by simp
  then have "\<lceil>- (3 / 2) :: rat\<rceil> = - 1" by (simp add: ceiling_def)
  then show ?thesis by (simp add: py_trunc_def)
qed

lemma py_trunc_3half: "py_trunc (3 / 2) = 1"
  using floor_divide_of_int_eq[of 3 2, where ?'a = rat] by (simp add: py_trunc_def)

lemma float_lit_07: "float_lit (7 / 10) = Finite (3152519739159347 / 4503599627370496)"
  unfolding float_lit_def
  using round_double_eval[of "- 1" "7 / 10"] by (simp add: round_half_even_eval)

lemma float_lit_02: "float_lit (2 / 10) = Finite (3602879701896397 / 18014398509481984)"
  unfolding float_lit_def
  using round_double_eval[of "- 3" "2 / 10"] by (simp add: round_half_even_eval)

lemma float_lit_08: "float_lit (8 / 10) = Finite (3602879701896397 / 4503599627370496)"
  unfolding float_lit_def
  using round_double_eval[of "- 1" "8 / 10"] by (simp add: round_half_even_eval)

lemma float_lit_03: "float_lit (3 / 10) = Finite (5404319552844595 / 18014398509481984)"
  unfolding float_lit_def
  using round_double_eval[of "- 2" "3 / 10"] by (simp add: round_half_even_eval)

lemma sum_08_03:
  "float_add (Finite (3602879701896397 / 4503599627370496)) (Finite (5404319552844595 / 18014398509481984))
     = Finite (2476979795053773 / 2251799813685248)"
  using round_double_eval[of 0 "3602879701896397 / 4503599627370496 + 5404319552844595 / 18014398509481984"]
  by (simp add: round_half_even_eval)

lemma sum_07_02:
  "float_add (Finite (3152519739159347 / 4503599627370496)) (Finite (3602879701896397 / 18014398509481984))
     = Finite (2026619832316723 / 2251799813685248)"
  using round_double_eval[of "- 1" "3152519739159347 / 4503599627370496 + 3602879701896397 / 18014398509481984"]
  by (simp add: round_half_even_eval)

lemma is_double_07: "is_double (3152519739159347 / 4503599627370496)"
  unfolding is_double_def
  using round_double_eval[of "- 1" "3152519739159347 / 4503599627370496"] by (simp add: round_half_even_eval)

lemma round_mag_10: "round_mag 10 = 10"
  using round_mag_eval[of 3 10] by (simp add: round_half_even_eval)

lemma round_mag_07_02:
  "round_mag (3152519739159347 / 4503599627370496 + 3602879701896397 / 18014398509481984)
     = 2026619832316723 / 2251799813685248"
  using round_mag_eval[of "- 1" "3152519739159347 / 4503599627370496 + 3602879701896397 / 18014398509481984"]
  by (simp add: round_half_even_eval)

lemma round_mag_10_07: "round_mag (10 * (3152519739159347 / 4503599627370496)) = 7"
  using round_mag_eval[of 2 "10 * (3152519739159347 / 4503599627370496)"]
  by (simp add: round_half_even_eval)

lemma round_mag_10_09: "round_mag (10 * (2026619832316723 / 2251799813685248)) = 9"
  using round_mag_eval[of 3 "10 * (2026619832316723 / 2251799813685248)"]
  by (simp add: round_half_even_eval)

lemma random_split_Inr:
  assumes "fst (random_split rng fp output_path train_ratio val_ratio move name) = Inr (train, val, test)"
  shows "\<exists>a b. cut_index (length fp) train_ratio = Inr a
             \<and> cut_index (length fp) (float_add train_ratio val_ratio) = Inr b
             \<and> train = py_slice (shuffle rng fp) None (Some a)
             \<and> val = py_slice (shuffle rng fp) (Some a) (Some b)
             \<and> test = py_slice (shuffle rng fp) (Some b) None"
  using assms unfolding random_split_def Let_def
  by (auto split: if_splits sum.splits)

lemma scaled_ratio:
  assumes "n < 2 ^ 63" "0 \<le> r" "r \<le> 1"
  shows "float_mul (Finite (round_mag (of_nat n))) (Finite r)
           = Finite (round_mag (round_mag (of_nat n) * r))"
proof -
  let ?N = "round_mag (of_nat n)"
  have N: "0 \<le> ?N" "?N \<le> 2 ^ 63" using nat_scale_bounds[OF assms(1)] by auto
  have p: "0 \<le> ?N * r" using N(1) assms(2) by simp
  have "?N * r \<le> ?N * 1" using N(1) assms(3) by (intro mult_left_mono) simp_all
  then have q: "?N * r \<le> 2 ^ 63" using N(2) by simp
  show ?thesis using round_double_small(1)[OF p q] by simp
qed

subsection \<open>The three groups\<close>

text \<open>
  Claim C2, as amended. For a non-empty file list and float ratios with
  \<open>0 \<le> train_ratio\<close>, \<open>0 \<le> val_ratio\<close> and \<open>train_ratio + val_ratio \<le> 1\<close> (the
  sum as Python computes it), \<open>random_split\<close> returns normally and its groups
  \<open>train\<close>, \<open>val\<close>, \<open>test\<close> partition the input: the three lengths add up to the
  input's, the groups together hold every input file exactly as often as the input does,
  and for distinct input paths no file is in two groups or twice in one. The bound on the
  length is the one every Python list obeys.
\<close>

theorem random_split_partition:
  assumes "fp \<noteq> []" "length fp < 2 ^ 63" "is_double t" "0 \<le> t" "0 \<le> v"
    and "float_le (float_add (Finite t) (Finite v)) (Finite 1)"
  shows "\<exists>train val test.
           fst (random_split rng fp output_path (Finite t) (Finite v) move name) = Inr (train, val, test)
         \<and> length train + length val + length test = length fp
         \<and> mset (train @ val @ test) = mset fp
         \<and> (distinct fp \<longrightarrow> distinct (train @ val @ test))"
proof -
  let ?sh = "shuffle rng fp"
  let ?a = "nat \<lfloor>round_mag (round_mag (of_nat (length fp)) * t)\<rfloor>"
  let ?b = "nat \<lfloor>round_mag (round_mag (of_nat (length fp)) * round_mag (t + v))\<rfloor>"
  note rs = random_split_valid(5)[OF assms, of rng output_path move name]
  have ab: "?a \<le> ?b" using random_split_valid(1)[OF assms] by (rule nat_mono)
  have whole: "take ?a ?sh @ take (?b - ?a) (drop ?a ?sh) @ drop ?b ?sh = ?sh"
    using ab by (rule cuts_partition)
  have m: "mset (take ?a ?sh @ take (?b - ?a) (drop ?a ?sh) @ drop ?b ?sh) = mset fp"
    using shuffle_props[of rng fp] by (simp only: whole)
  have "length (take ?a ?sh @ take (?b - ?a) (drop ?a ?sh) @ drop ?b ?sh) = length fp"
    using shuffle_props[of rng fp] by (simp only: whole)
  then have l: "length (take ?a ?sh) + length (take (?b - ?a) (drop ?a ?sh)) + length (drop ?b ?sh) = length fp"
    by (simp only: length_append add.assoc)
  have d: "distinct fp \<longrightarrow> distinct (take ?a ?sh @ take (?b - ?a) (drop ?a ?sh) @ drop ?b ?sh)"
    using m by (metis distinct_count_atmost_1 set_mset_mset mset_eq_setD)
  show ?thesis using rs l m d by blast
qed

text \<open>The partition theorem at four files, half of them for training, a quarter for validation.\<close>

theorem random_split_partition_witness:
  "[''a'', ''b'', ''c'', ''d''] \<noteq> [] \<and> length [''a'', ''b'', ''c'', ''d''] < 2 ^ 63
   \<and> is_double (1 / 2) \<and> (0::rat) \<le> 1 / 2 \<and> (0::rat) \<le> 1 / 4
   \<and> float_le (float_add (Finite (1 / 2)) (Finite (1 / 4))) (Finite 1)
   \<and> (\<exists>train val test.
         fst (random_split Suc [''a'', ''b'', ''c'', ''d''] ''out'' (Finite (1 / 2)) (Finite (1 / 4)) False ''cls'')
           = Inr (train, val, test)
       \<and> length train + length val + length test = length [''a'', ''b'', ''c'', ''d'']
       \<and> mset (train @ val @ test) = mset [''a'', ''b'', ''c'', ''d'']
       \<and> (distinct [''a'', ''b'', ''c'', ''d''] \<longrightarrow> distinct (train @ val @ test)))"
proof -
  have h: "is_double (1 / 2)" "float_le (float_add (Finite (1 / 2)) (Finite (1 / 4))) (Finite 1)"
    by (simp_all add: is_double_def round_double_half round_double_3quarter)
  show ?thesis
    using h random_split_partition[of "[''a'', ''b'', ''c'', ''d'']" "1 / 2" "1 / 4" Suc "''out''" False "''cls''"]
    by simp
qed

text \<open>
  Without the two sign conditions the partition fails: with \<open>train_ratio = 0.5\<close> and
  \<open>val_ratio = -0.5\<close> the sum is \<open>0.0 \<le> 1\<close>, the cuts are 1 and 0, and of two files
  the first is copied both to \<open>train\<close> and to \<open>test\<close>: three copies of two files.
\<close>

theorem random_split_negative_ratio_counterexample:
  "[''a'', ''b''] \<noteq> []
   \<and> float_le (float_add (Finite (1 / 2)) (Finite (- (1 / 2)))) (Finite 1)
   \<and> fst (random_split id [''a'', ''b''] ''out'' (Finite (1 / 2)) (Finite (- (1 / 2))) False ''cls'')
        = Inr ([''a''], [], [''a'', ''b''])
   \<and> length [''a''] + length ([] :: string list) + length [''a'', ''b''] \<noteq> length [''a'', ''b'']"
  by (simp add: random_split_def cut_index_def float_of_int_def round_double_0 round_double_1
        round_double_2 py_trunc_def py_slice_def slice_index_def shuffle_def swap_def Let_def)

text \<open>
  Claim C3, as amended. Every call that returns has cut the shuffled list into the three slices
  \<open>[:a]\<close>, \<open>[a:b]\<close>, \<open>[b:]\<close> with \<open>a = int(n * train_ratio)\<close> and
  \<open>b = int(n * (train_ratio + val_ratio))\<close>, \<open>int\<close> truncating toward zero. For a call that
  satisfies the preconditions with \<open>0 \<le> train_ratio\<close> and \<open>0 \<le> val_ratio\<close> these are the
  floors: the shuffled list is cut at
  \<open>\<lfloor>n * train_ratio\<rfloor>\<close> and \<open>\<lfloor>n * (train_ratio + val_ratio)\<rfloor>\<close>,
  the products and the sum being the binary64 ones: \<open>train\<close> is the slice before the first
  cut, \<open>val\<close> the slice between the cuts, \<open>test\<close> the slice from the second cut on.
  In particular every 10-element input with the literals \<open>0.7\<close> and \<open>0.2\<close> gives
  groups of 7, 2 and 1 files (the sum is \<open>0.8999999999999999\<close>, whose product with 10
  rounds to exactly 9).
\<close>

theorem random_split_cut_indices:
  "(fp \<noteq> [] \<and> length fp < 2 ^ 63 \<and> is_double t \<and> 0 \<le> t \<and> 0 \<le> v
      \<and> float_le (float_add (Finite t) (Finite v)) (Finite 1) \<longrightarrow>
      (\<exists>N A B. float_of_int (int (length fp)) = Inr N
             \<and> float_mul N (Finite t) = Finite A
             \<and> float_mul N (float_add (Finite t) (Finite v)) = Finite B
             \<and> 0 \<le> \<lfloor>A\<rfloor> \<and> \<lfloor>A\<rfloor> \<le> \<lfloor>B\<rfloor>
             \<and> fst (random_split rng fp output_path (Finite t) (Finite v) move name) =
                 Inr (take (nat \<lfloor>A\<rfloor>) (shuffle rng fp),
                      take (nat \<lfloor>B\<rfloor> - nat \<lfloor>A\<rfloor>) (drop (nat \<lfloor>A\<rfloor>) (shuffle rng fp)),
                      drop (nat \<lfloor>B\<rfloor>) (shuffle rng fp))))
   \<and> (length fp = 10 \<longrightarrow>
        (\<exists>train val test.
           fst (random_split rng fp output_path (float_lit (7 / 10)) (float_lit (2 / 10)) move name)
             = Inr (train, val, test)
         \<and> length train = 7 \<and> length val = 2 \<and> length test = 1))
   \<and> (fst (random_split rng fp output_path train_ratio val_ratio move name) = Inr (train, val, test) \<longrightarrow>
        (\<exists>a b. cut_index (length fp) train_ratio = Inr a
             \<and> cut_index (length fp) (float_add train_ratio val_ratio) = Inr b
             \<and> train = py_slice (shuffle rng fp) None (Some a)
             \<and> val = py_slice (shuffle rng fp) (Some a) (Some b)
             \<and> test = py_slice (shuffle rng fp) (Some b) None))"
proof (intro conjI impI)
  assume h: "fp \<noteq> [] \<and> length fp < 2 ^ 63 \<and> is_double t \<and> 0 \<le> t \<and> 0 \<le> v
      \<and> float_le (float_add (Finite t) (Finite v)) (Finite 1)"
  let ?N = "round_mag (of_nat (length fp))"
  have rs: "\<lfloor>round_mag (?N * t)\<rfloor> \<le> \<lfloor>round_mag (?N * round_mag (t + v))\<rfloor>"
    "0 \<le> \<lfloor>round_mag (?N * t)\<rfloor>"
    "fst (random_split rng fp output_path (Finite t) (Finite v) move name) =
           Inr (take (nat \<lfloor>round_mag (?N * t)\<rfloor>) (shuffle rng fp),
                take (nat \<lfloor>round_mag (?N * round_mag (t + v))\<rfloor> - nat \<lfloor>round_mag (?N * t)\<rfloor>)
                  (drop (nat \<lfloor>round_mag (?N * t)\<rfloor>) (shuffle rng fp)),
                drop (nat \<lfloor>round_mag (?N * round_mag (t + v))\<rfloor>) (shuffle rng fp))"
    using h random_split_valid(1)[of fp t v] random_split_valid(2)[of fp t v]
      random_split_valid(5)[of fp t v rng output_path move name] by blast+
  have sum: "float_add (Finite t) (Finite v) = Finite (round_mag (t + v))"
    "t \<le> round_mag (t + v)" "round_mag (t + v) \<le> 1"
    using h ratio_sum_valid[of t v] by blast+
  have n: "length fp < 2 ^ 63" and t0: "0 \<le> t" using h by blast+
  have t1: "t \<le> 1" using sum(2,3) by linarith
  have s0: "0 \<le> round_mag (t + v)" using sum(2) t0 by linarith
  have N: "float_of_int (int (length fp)) = Inr (Finite ?N)" using n by (rule float_of_int_nat)
  have A: "float_mul (Finite ?N) (Finite t) = Finite (round_mag (?N * t))"
    using n t0 t1 by (rule scaled_ratio)
  have "float_mul (Finite ?N) (Finite (round_mag (t + v))) = Finite (round_mag (?N * round_mag (t + v)))"
    using n s0 sum(3) by (rule scaled_ratio)
  then have B: "float_mul (Finite ?N) (float_add (Finite t) (Finite v))
                  = Finite (round_mag (?N * round_mag (t + v)))"
    by (simp only: sum(1))
  show "\<exists>N A B. float_of_int (int (length fp)) = Inr N
             \<and> float_mul N (Finite t) = Finite A
             \<and> float_mul N (float_add (Finite t) (Finite v)) = Finite B
             \<and> 0 \<le> \<lfloor>A\<rfloor> \<and> \<lfloor>A\<rfloor> \<le> \<lfloor>B\<rfloor>
             \<and> fst (random_split rng fp output_path (Finite t) (Finite v) move name) =
                 Inr (take (nat \<lfloor>A\<rfloor>) (shuffle rng fp),
                      take (nat \<lfloor>B\<rfloor> - nat \<lfloor>A\<rfloor>) (drop (nat \<lfloor>A\<rfloor>) (shuffle rng fp)),
                      drop (nat \<lfloor>B\<rfloor>) (shuffle rng fp))"
    using N A B rs by blast
next
  assume len: "length fp = 10"
  let ?t = "3152519739159347 / 4503599627370496 :: rat"
  let ?v = "3602879701896397 / 18014398509481984 :: rat"
  have ne: "fp \<noteq> []" using len by auto
  have n: "length fp < 2 ^ 63" using len by simp
  have le: "float_le (float_add (Finite ?t) (Finite ?v)) (Finite 1)"
    by (simp only: sum_07_02) simp
  have N: "round_mag (of_nat (length fp)) = 10" using len by (simp add: round_mag_10)
  have a: "\<lfloor>round_mag (round_mag (of_nat (length fp)) * ?t)\<rfloor> = 7"
    by (simp only: N round_mag_10_07) simp
  have b: "\<lfloor>round_mag (round_mag (of_nat (length fp)) * round_mag (?t + ?v))\<rfloor> = 9"
    by (simp only: N round_mag_07_02 round_mag_10_09) simp
  have p: "(0::rat) \<le> ?t" "(0::rat) \<le> ?v" by simp_all
  have sh: "length (shuffle rng fp) = 10" using shuffle_props[of rng fp] len by simp
  have "fst (random_split rng fp output_path (Finite ?t) (Finite ?v) move name) =
          Inr (take 7 (shuffle rng fp), take 2 (drop 7 (shuffle rng fp)), drop 9 (shuffle rng fp))"
    using random_split_valid(5)[OF ne n is_double_07 p le, of rng output_path move name]
    unfolding a b by simp
  then show "\<exists>train val test.
           fst (random_split rng fp output_path (float_lit (7 / 10)) (float_lit (2 / 10)) move name)
             = Inr (train, val, test)
         \<and> length train = 7 \<and> length val = 2 \<and> length test = 1"
    unfolding float_lit_07 float_lit_02 using sh by simp
next
  assume "fst (random_split rng fp output_path train_ratio val_ratio move name) = Inr (train, val, test)"
  then show "\<exists>a b. cut_index (length fp) train_ratio = Inr a
             \<and> cut_index (length fp) (float_add train_ratio val_ratio) = Inr b
             \<and> train = py_slice (shuffle rng fp) None (Some a)
             \<and> val = py_slice (shuffle rng fp) (Some a) (Some b)
             \<and> test = py_slice (shuffle rng fp) (Some b) None"
    by (rule random_split_Inr)
qed

text \<open>The cut theorem at ten files with \<open>0.7\<close> and \<open>0.2\<close>, and at four files with \<open>0.5\<close> and \<open>0.25\<close>.\<close>

theorem random_split_cut_indices_witness:
  "length [''f0'', ''f1'', ''f2'', ''f3'', ''f4'', ''f5'', ''f6'', ''f7'', ''f8'', ''f9''] = 10
   \<and> (\<exists>train val test.
         fst (random_split Suc [''f0'', ''f1'', ''f2'', ''f3'', ''f4'', ''f5'', ''f6'', ''f7'', ''f8'', ''f9'']
                ''out'' (float_lit (7 / 10)) (float_lit (2 / 10)) False ''cls'')
           = Inr (train, val, test)
       \<and> length train = 7 \<and> length val = 2 \<and> length test = 1)
   \<and> [''a'', ''b'', ''c'', ''d''] \<noteq> [] \<and> length [''a'', ''b'', ''c'', ''d''] < 2 ^ 63
   \<and> is_double (1 / 2) \<and> (0::rat) \<le> 1 / 2 \<and> (0::rat) \<le> 1 / 4
   \<and> float_le (float_add (Finite (1 / 2)) (Finite (1 / 4))) (Finite 1)
   \<and> (\<exists>N A B. float_of_int (int (length [''a'', ''b'', ''c'', ''d''])) = Inr N
          \<and> float_mul N (Finite (1 / 2)) = Finite A
          \<and> float_mul N (float_add (Finite (1 / 2)) (Finite (1 / 4))) = Finite B
          \<and> 0 \<le> \<lfloor>A\<rfloor> \<and> \<lfloor>A\<rfloor> \<le> \<lfloor>B\<rfloor>
          \<and> fst (random_split Suc [''a'', ''b'', ''c'', ''d''] ''out'' (Finite (1 / 2)) (Finite (1 / 4)) False ''cls'') =
              Inr (take (nat \<lfloor>A\<rfloor>) (shuffle Suc [''a'', ''b'', ''c'', ''d'']),
                   take (nat \<lfloor>B\<rfloor> - nat \<lfloor>A\<rfloor>) (drop (nat \<lfloor>A\<rfloor>) (shuffle Suc [''a'', ''b'', ''c'', ''d''])),
                   drop (nat \<lfloor>B\<rfloor>) (shuffle Suc [''a'', ''b'', ''c'', ''d''])))"
proof -
  have len: "length [''f0'', ''f1'', ''f2'', ''f3'', ''f4'', ''f5'', ''f6'', ''f7'', ''f8'', ''f9''] = 10"
    by simp
  have h: "[''a'', ''b'', ''c'', ''d''] \<noteq> [] \<and> length [''a'', ''b'', ''c'', ''d''] < 2 ^ 63
     \<and> is_double (1 / 2) \<and> (0::rat) \<le> 1 / 2 \<and> (0::rat) \<le> 1 / 4
     \<and> float_le (float_add (Finite (1 / 2)) (Finite (1 / 4))) (Finite 1)"
    by (simp add: is_double_def round_double_half round_double_3quarter)
  note inst = random_split_cut_indices[of _ _ _ Suc "''out''" False "''cls''",
      THEN conjunct2, THEN conjunct1, THEN mp, OF len]
  note gen = random_split_cut_indices[of "[''a'', ''b'', ''c'', ''d'']" "1 / 2" "1 / 4" Suc "''out''" False "''cls''",
      THEN conjunct1, THEN mp, OF h]
  show ?thesis using len inst h gen by (intro conjI) blast+
qed

text \<open>
  Without the sign conditions the cuts are not the floors: with \<open>train_ratio = -0.5\<close> and
  \<open>val_ratio = 1.0\<close> the sum is \<open>0.5 \<le> 1\<close>, and on three files \<open>n * train_ratio\<close> is
  \<open>-1.5\<close>, whose floor is \<open>-2\<close> while \<open>int\<close> gives \<open>-1\<close>. The groups are
  \<open>['a', 'b']\<close>, \<open>[]\<close>, \<open>['b', 'c']\<close>; a cut at the floor would give \<open>['a']\<close> for
  \<open>train\<close>.
\<close>

theorem random_split_truncation_counterexample:
  "[''a'', ''b'', ''c''] \<noteq> []
   \<and> float_le (float_add (Finite (- (1 / 2))) (Finite 1)) (Finite 1)
   \<and> float_of_int (int (length [''a'', ''b'', ''c''])) = Inr (Finite 3)
   \<and> float_mul (Finite 3) (Finite (- (1 / 2))) = Finite (- (3 / 2))
   \<and> \<lfloor>- (3 / 2) :: rat\<rfloor> = - 2
   \<and> cut_index (length [''a'', ''b'', ''c'']) (Finite (- (1 / 2))) = Inr (- 1)
   \<and> cut_index (length [''a'', ''b'', ''c'']) (float_add (Finite (- (1 / 2))) (Finite 1)) = Inr 1
   \<and> fst (random_split id [''a'', ''b'', ''c''] ''out'' (Finite (- (1 / 2))) (Finite 1) False ''cls'')
        = Inr ([''a'', ''b''], [], [''b'', ''c''])
   \<and> py_slice (shuffle id [''a'', ''b'', ''c'']) None (Some (- 2)) = [''a'']
   \<and> [''a'', ''b''] \<noteq> py_slice (shuffle id [''a'', ''b'', ''c'']) None (Some (- 2))"
  by (simp add: random_split_def cut_index_def float_of_int_def round_double_3 round_double_half
        round_double_neg_3half round_double_3half floor_neg_3half py_trunc_neg_3half py_trunc_3half
        py_slice_def slice_index_def shuffle_def swap_def Let_def)

subsection \<open>The two assertions\<close>

text \<open>
  Claim C5, as amended. The ratio assertion is checked first and the emptiness assertion
  second, both before the first \<open>mkdir\<close>: a call whose ratio sum is not \<open>\<le> 1\<close> raises
  the \<open>AssertionError\<close> of the ratio check (the spec's configuration error), and a call
  whose ratio sum is \<open>\<le> 1\<close> and whose file list is empty raises the \<open>AssertionError\<close>
  of the emptiness check (the spec's empty-input error); in both cases no file-system
  operation has been performed.
\<close>

theorem random_split_preconditions:
  "(\<not> float_le (float_add train_ratio val_ratio) (Finite 1) \<longrightarrow>
      random_split rng fp output_path train_ratio val_ratio move name
        = (Inl (AssertionError ''Total of train, val ratio must <= 1''), []))
   \<and> (float_le (float_add train_ratio val_ratio) (Finite 1) \<longrightarrow> fp = [] \<longrightarrow>
      random_split rng fp output_path train_ratio val_ratio move name
        = (Inl (AssertionError ''Empty data folder''), []))"
  by (simp add: random_split_def)

text \<open>The two assertions at \<open>0.8 + 0.3\<close> with one file, and at \<open>0.5 + 0.25\<close> with none.\<close>

theorem random_split_preconditions_witness:
  "\<not> float_le (float_add (float_lit (8 / 10)) (float_lit (3 / 10))) (Finite 1)
   \<and> random_split id [''a''] ''out'' (float_lit (8 / 10)) (float_lit (3 / 10)) False ''cls''
       = (Inl (AssertionError ''Total of train, val ratio must <= 1''), [])
   \<and> float_le (float_add (Finite (1 / 2)) (Finite (1 / 4))) (Finite 1)
   \<and> random_split id [] ''out'' (Finite (1 / 2)) (Finite (1 / 4)) False ''cls''
       = (Inl (AssertionError ''Empty data folder''), [])"
proof -
  have a: "\<not> float_le (float_add (float_lit (8 / 10)) (float_lit (3 / 10))) (Finite 1)"
    unfolding float_lit_08 float_lit_03 sum_08_03 by simp
  have b: "float_le (float_add (Finite (1 / 2)) (Finite (1 / 4))) (Finite 1)"
    by (simp add: round_double_3quarter)
  show ?thesis
    using a b
      random_split_preconditions[of "float_lit (8 / 10)" "float_lit (3 / 10)" id "[''a'']" "''out''" False "''cls''"]
      random_split_preconditions[of "Finite (1 / 2)" "Finite (1 / 4)" id "[]" "''out''" False "''cls''"]
    by blast
qed

text \<open>
  An empty file list does not always give the emptiness error: when the ratio sum is
  invalid as well, the ratio error is the one raised.
\<close>

theorem random_split_both_violated_counterexample:
  "([] :: string list) = []
   \<and> fst (random_split id [] ''out'' (float_lit (8 / 10)) (float_lit (3 / 10)) False ''cls'')
       = Inl (AssertionError ''Total of train, val ratio must <= 1'')
   \<and> fst (random_split id [] ''out'' (float_lit (8 / 10)) (float_lit (3 / 10)) False ''cls'')
       \<noteq> Inl (AssertionError ''Empty data folder'')"
proof -
  have a: "\<not> float_le (float_add (float_lit (8 / 10)) (float_lit (3 / 10))) (Finite 1)"
    unfolding float_lit_08 float_lit_03 sum_08_03 by simp
  then show ?thesis by (simp add: random_split_def)
qed

section \<open>Properties of \<open>_parse_keypoints\<close>\<close>

subsection \<open>The maximum search and the loop\<close>

lemma set_positions: "set (positions H W) = {..<H} \<times> {..<W}"
  by (auto simp: positions_def)

lemma positions_empty: "positions H W = [] \<longleftrightarrow> H = 0 \<or> W = 0"
proof -
  have "positions H W = [] \<longleftrightarrow> set (positions H W) = {}" by simp
  also have "\<dots> \<longleftrightarrow> H = 0 \<or> W = 0" unfolding set_positions by auto
  finally show ?thesis .
qed

lemma scan_max_inv:
  assumes "f (snd loc) (fst loc) = v"
  shows "case scan_max f ps (v, loc) of
           (v', loc') \<Rightarrow>
             f (snd loc') (fst loc') = v' \<and> v \<le> v'
             \<and> (\<forall>(r, k) \<in> set ps. f r k \<le> v')
             \<and> (loc' = loc \<or> (snd loc', fst loc') \<in> set ps)"
  using assms
proof (induction ps arbitrary: v loc)
  case Nil
  then show ?case by simp
next
  case (Cons p ps)
  obtain r k where p: "p = (r, k)" by (cases p)
  show ?case
  proof (cases "v < f r k")
    case True
    have "f (snd (k, r)) (fst (k, r)) = f r k" by simp
    from Cons.IH[of "(k, r)" "f r k", OF this] True show ?thesis
      unfolding p by (auto split: prod.splits)
  next
    case False
    from Cons.IH[OF Cons.prems] False show ?thesis
      unfolding p by (auto split: prod.splits)
  qed
qed

lemma minMaxLoc_Inr:
  assumes "minMaxLoc H W f = Inr (prob, point)"
  shows "snd point < H \<and> fst point < W \<and> f (snd point) (fst point) = prob
         \<and> (\<forall>r < H. \<forall>k < W. f r k \<le> prob)"
proof -
  obtain r0 k0 ps where pos: "positions H W = (r0, k0) # ps"
    using assms by (auto simp: minMaxLoc_def split: list.splits)
  then have res: "scan_max f ps (f r0 k0, (k0, r0)) = (prob, point)"
    using assms by (simp add: minMaxLoc_def)
  have "f (snd (k0, r0)) (fst (k0, r0)) = f r0 k0" by simp
  from scan_max_inv[of f "(k0, r0)" "f r0 k0" ps, OF this] res
  have inv: "f (snd point) (fst point) = prob" "f r0 k0 \<le> prob"
    "\<forall>(r, k) \<in> set ps. f r k \<le> prob" "point = (k0, r0) \<or> (snd point, fst point) \<in> set ps"
    by auto
  have mem: "(snd point, fst point) \<in> set (positions H W)"
    using inv(4) pos by auto
  then have rng: "snd point < H \<and> fst point < W" unfolding set_positions by simp
  have "\<forall>(r, k) \<in> set (positions H W). f r k \<le> prob"
    using inv(2,3) pos by auto
  then have "\<forall>r < H. \<forall>k < W. f r k \<le> prob" unfolding set_positions by auto
  then show ?thesis using rng inv(1) by simp
qed

lemma minMaxLoc_total:
  assumes "0 < H" "0 < W"
  shows "\<exists>prob point. minMaxLoc H W f = Inr (prob, point)"
proof -
  have "positions H W \<noteq> []" using assms by (simp add: positions_empty)
  then obtain p ps where "positions H W = p # ps" by (cases "positions H W") auto
  then show ?thesis
    by (cases p) (simp add: minMaxLoc_def prod_eq_iff split: prod.splits)
qed

lemma minMaxLoc_Max:
  assumes "minMaxLoc (dim2 v) (dim3 v) (entry v 0 idx) = Inr (prob, point)"
  shows "prob = Max (set (plane_values v idx))"
proof -
  note m = minMaxLoc_Inr[OF assms]
  have s: "set (plane_values v idx) = (\<lambda>(r, k). entry v 0 idx r k) ` ({..<dim2 v} \<times> {..<dim3 v})"
    by (simp add: plane_values_def set_positions)
  have "prob \<in> set (plane_values v idx)"
    unfolding s using m by (auto intro!: image_eqI[where x = "(snd point, fst point)"])
  moreover have "\<And>y. y \<in> set (plane_values v idx) \<Longrightarrow> y \<le> prob"
    unfolding s using m by auto
  ultimately show ?thesis by (intro Max_eqI[symmetric]) simp_all
qed

lemma parse_channel_Inr:
  assumes "parse_channel v sz thr idx = Inr p"
  shows "\<exists>prob point x y.
           0 < dim0 v \<and> idx < dim1 v
         \<and> minMaxLoc (dim2 v) (dim3 v) (entry v 0 idx) = Inr (prob, point)
         \<and> int_truediv (fst sz * int (fst point)) (int (dim3 v)) = Inr x
         \<and> int_truediv (snd sz * int (snd point)) (int (dim2 v)) = Inr y
         \<and> p = (if thr < prob then Some (x, y, prob) else None)"
  using assms unfolding parse_channel_def
  by (auto split: if_splits sum.splits prod.splits)

lemma parse_loop_Inr:
  "parse_loop v sz thr idxs = Inr pts \<longleftrightarrow>
     list_all2 (\<lambda>idx p. parse_channel v sz thr idx = Inr p) idxs pts"
proof (induction idxs arbitrary: pts)
  case Nil
  then show ?case by auto
next
  case (Cons idx idxs)
  show ?case
  proof (cases pts)
    case Nil
    then show ?thesis by (auto split: sum.splits)
  next
    case (Cons p ps)
    then show ?thesis using Cons.IH[of ps] by (auto split: sum.splits)
  qed
qed

lemma parse_keypoints_Inr:
  assumes "parse_keypoints self v sz thr = Inr pts"
  shows "length pts = length (BODY_PARTS self)"
    and "idx < length (BODY_PARTS self) \<Longrightarrow> parse_channel v sz thr idx = Inr (pts ! idx)"
proof -
  have l: "list_all2 (\<lambda>idx p. parse_channel v sz thr idx = Inr p) [0..<length (BODY_PARTS self)] pts"
    using assms by (simp add: parse_keypoints_def parse_loop_Inr)
  then show len: "length pts = length (BODY_PARTS self)"
    by (auto dest: list_all2_lengthD)
  show "parse_channel v sz thr idx = Inr (pts ! idx)" if "idx < length (BODY_PARTS self)"
    using list_all2_nthD[OF l, of idx] that by simp
qed

lemma parse_keypoints_slot:
  assumes "parse_keypoints self v sz thr = Inr pts" "idx < length (BODY_PARTS self)"
  shows "\<exists>point x y.
           snd point < dim2 v \<and> fst point < dim3 v
         \<and> entry v 0 idx (snd point) (fst point) = Max (set (plane_values v idx))
         \<and> int_truediv (fst sz * int (fst point)) (int (dim3 v)) = Inr x
         \<and> int_truediv (snd sz * int (snd point)) (int (dim2 v)) = Inr y
         \<and> pts ! idx = (if thr < Max (set (plane_values v idx))
                         then Some (x, y, Max (set (plane_values v idx))) else None)"
proof -
  from parse_channel_Inr[OF parse_keypoints_Inr(2)[OF assms]]
  obtain prob point x y where c:
    "minMaxLoc (dim2 v) (dim3 v) (entry v 0 idx) = Inr (prob, point)"
    "int_truediv (fst sz * int (fst point)) (int (dim3 v)) = Inr x"
    "int_truediv (snd sz * int (snd point)) (int (dim2 v)) = Inr y"
    "pts ! idx = (if thr < prob then Some (x, y, prob) else None)"
    by blast
  have m: "prob = Max (set (plane_values v idx))" using c(1) by (rule minMaxLoc_Max)
  show ?thesis using minMaxLoc_Inr[OF c(1)] c(2,3,4) unfolding m by blast
qed

lemma round_double_abs_small:
  assumes "\<bar>x\<bar> \<le> 2 ^ 63"
  shows "round_double x = Finite (if x < 0 then - round_mag \<bar>x\<bar> else round_mag \<bar>x\<bar>)"
proof -
  have "round_mag \<bar>x\<bar> \<le> 2 ^ 63" using assms by (intro round_double_small) simp
  moreover have "(2::rat) ^ 63 < 2 ^ 1024" by simp
  ultimately have "\<not> 2 ^ 1024 \<le> round_mag \<bar>x\<bar>" by linarith
  then show ?thesis unfolding round_double_def Let_def by (simp only: if_False)
qed

lemma quantum_le: "a \<noteq> 0 \<Longrightarrow> quantum \<bar>a\<bar> \<le> max \<bar>a\<bar> (2 powi (- 1022)) / 2 ^ 52"
proof -
  assume "a \<noteq> 0"
  then have pos: "0 < \<bar>a\<bar>" by simp
  have "(2::rat) powi bexp \<bar>a\<bar> \<le> max \<bar>a\<bar> (2 powi (- 1022))"
  proof (cases "binade \<bar>a\<bar> \<le> - 1022")
    case True
    then have "bexp \<bar>a\<bar> = - 1022" by (simp add: bexp_def)
    then show ?thesis by (simp only: max.cobounded2)
  next
    case False
    then have "bexp \<bar>a\<bar> = binade \<bar>a\<bar>" by (simp add: bexp_def)
    then have "(2::rat) powi bexp \<bar>a\<bar> \<le> \<bar>a\<bar>" using binade_bounds[OF pos] by simp
    then show ?thesis by (simp add: le_max_iff_disj)
  qed
  then have "(2::rat) powi bexp \<bar>a\<bar> / 2 ^ 52 \<le> max \<bar>a\<bar> (2 powi (- 1022)) / 2 ^ 52"
    by (rule divide_right_mono) simp
  moreover have "quantum \<bar>a\<bar> = 2 powi bexp \<bar>a\<bar> / 2 ^ 52"
    using powi2_split0[of "bexp \<bar>a\<bar>"] by (simp add: quantum_bexp)
  ultimately show ?thesis by simp
qed

lemma round_double_error:
  assumes "round_double q = Finite x"
  shows "\<bar>x - q\<bar> \<le> max \<bar>q\<bar> (2 powi (- 1022)) / 2 ^ 53"
proof (cases "q = 0")
  case True
  then show ?thesis using assms by (simp add: round_double_0)
next
  case False
  have x: "x = (if q < 0 then - round_mag \<bar>q\<bar> else round_mag \<bar>q\<bar>)"
    using assms unfolding round_double_def Let_def by (simp split: if_splits)
  have "\<bar>x - q\<bar> = \<bar>round_mag \<bar>q\<bar> - \<bar>q\<bar>\<bar>"
    unfolding x by (cases "q < 0") (simp_all add: abs_minus_commute)
  also have "\<dots> \<le> quantum \<bar>q\<bar> / 2" by (rule round_mag_error)
  also have "\<dots> \<le> (max \<bar>q\<bar> (2 powi (- 1022)) / 2 ^ 52) / 2"
    using quantum_le[OF False] by (rule divide_right_mono) simp
  also have "\<dots> = max \<bar>q\<bar> (2 powi (- 1022)) / 2 ^ 53" by simp
  finally show ?thesis .
qed

lemma int_truediv_Inr:
  assumes "int_truediv a b = Inr x"
  shows "b \<noteq> 0" and "round_double (of_int a / of_int b) = Finite x"
  using assms unfolding int_truediv_def by (auto split: if_splits pyfloat.splits)

lemma int_truediv_total:
  assumes "0 < W" "p < W" "\<bar>w\<bar> \<le> 2 ^ 63"
  shows "\<exists>x. int_truediv (w * int p) (int W) = Inr x"
proof -
  have W: "(0::rat) < of_nat W" using assms(1) by simp
  have "(of_nat p :: rat) \<le> of_nat W" using assms(2) by simp
  then have "(of_nat p :: rat) / of_nat W \<le> 1" using W by (simp add: pos_divide_le_eq)
  moreover have "0 \<le> (of_nat p :: rat) / of_nat W" by simp
  ultimately have f: "\<bar>(of_nat p :: rat) / of_nat W\<bar> \<le> 1" by simp
  have "(of_int \<bar>w\<bar> :: rat) \<le> of_int (2 ^ 63)" using assms(3) by (simp only: of_int_le_iff)
  then have w: "\<bar>of_int w :: rat\<bar> \<le> 2 ^ 63" by simp
  have "\<bar>of_int (w * int p) / of_int (int W) :: rat\<bar> = \<bar>of_int w\<bar> * \<bar>of_nat p / of_nat W\<bar>"
    by (simp add: abs_mult)
  also have "\<dots> \<le> \<bar>of_int w\<bar> * 1" using f by (intro mult_left_mono) simp_all
  also have "\<dots> \<le> 2 ^ 63" using w by simp
  finally have "\<bar>of_int (w * int p) / of_int (int W) :: rat\<bar> \<le> 2 ^ 63" .
  from round_double_abs_small[OF this] show ?thesis
    using assms(1) by (simp add: int_truediv_def)
qed

lemma parse_channel_total:
  assumes "0 < dim0 v" "idx < dim1 v" "0 < dim2 v" "0 < dim3 v"
    and "\<bar>fst sz\<bar> \<le> 2 ^ 63" "\<bar>snd sz\<bar> \<le> 2 ^ 63"
  shows "\<exists>p. parse_channel v sz thr idx = Inr p"
proof -
  obtain prob point where m: "minMaxLoc (dim2 v) (dim3 v) (entry v 0 idx) = Inr (prob, point)"
    using minMaxLoc_total[OF assms(3,4)] by blast
  have r: "snd point < dim2 v" "fst point < dim3 v" using minMaxLoc_Inr[OF m] by auto
  obtain x where x: "int_truediv (fst sz * int (fst point)) (int (dim3 v)) = Inr x"
    using int_truediv_total[OF assms(4) r(2) assms(5)] by blast
  obtain y where y: "int_truediv (snd sz * int (snd point)) (int (dim2 v)) = Inr y"
    using int_truediv_total[OF assms(3) r(1) assms(6)] by blast
  show ?thesis using assms(1,2) m x y by (simp add: parse_channel_def)
qed

lemma parse_loop_total:
  assumes "\<forall>idx \<in> set idxs. \<exists>p. parse_channel v sz thr idx = Inr p"
  shows "\<exists>pts. parse_loop v sz thr idxs = Inr pts"
  using assms by (induction idxs) (auto split: sum.splits)

lemma parse_keypoints_total:
  assumes "well_formed self v" "\<bar>fst sz\<bar> \<le> 2 ^ 63" "\<bar>snd sz\<bar> \<le> 2 ^ 63"
  shows "\<exists>pts. parse_keypoints self v sz thr = Inr pts"
proof -
  have "\<forall>idx \<in> set [0..<length (BODY_PARTS self)]. \<exists>p. parse_channel v sz thr idx = Inr p"
    using assms by (auto simp: well_formed_def intro!: parse_channel_total)
  then show ?thesis unfolding parse_keypoints_def by (rule parse_loop_total)
qed

subsection \<open>The sample output\<close>

lemma positions_2_3: "positions 2 3 = [(0, 0), (0, 1), (0, 2), (1, 0), (1, 1), (1, 2)]"
  by code_simp

lemma upt_19: "[0..<19] = [0, 1, 2, 3, 4, 5, 6, 7, 8, 9, 10, 11, 12, 13, 14, 15, 16, 17, 18]"
  by code_simp

lemma round_double_640_3: "round_double (640 / 3) = Finite (7505999378950827 / 35184372088832)"
  using round_double_eval[of 7 "640 / 3"] by (simp add: round_half_even_eval)

lemma round_double_240: "round_double 240 = Finite 240"
  using round_double_eval[of 7 240] by (simp add: round_half_even_eval)

lemma sample_channel_nose:
  "thr < 9 / 10 \<Longrightarrow>
     parse_channel sample_output (640, 480) thr 0
       = Inr (Some (7505999378950827 / 35184372088832, 240, 9 / 10))"
  by (simp add: parse_channel_def sample_output_def minMaxLoc_def positions_2_3 int_truediv_def
        round_double_640_3 round_double_240)

lemma sample_channel_background:
  "thr < 3 / 4 \<Longrightarrow> parse_channel sample_output (640, 480) thr 18 = Inr (Some (0, 0, 3 / 4))"
  by (simp add: parse_channel_def sample_output_def minMaxLoc_def positions_2_3 int_truediv_def
        round_double_0)

lemma sample_channel_other:
  "idx \<noteq> 0 \<Longrightarrow> idx \<noteq> 18 \<Longrightarrow> idx < 57 \<Longrightarrow> 1 / 100 \<le> thr \<Longrightarrow>
     parse_channel sample_output (640, 480) thr idx = Inr None"
  by (simp add: parse_channel_def sample_output_def minMaxLoc_def positions_2_3 int_truediv_def
        round_double_0)

lemma coco_length: "length (BODY_PARTS COCOOpenPosePredictor) = 19"
  by (simp add: COCOOpenPosePredictor_def)

lemma sample_parse_any:
  assumes "1 / 100 \<le> thr" "thr < 3 / 4"
  shows "parse_keypoints COCOOpenPosePredictor sample_output (640, 480) thr = Inr sample_pose"
proof -
  have n: "thr < 9 / 10" using assms(2) by simp
  show ?thesis
    unfolding parse_keypoints_def coco_length upt_19 sample_pose_def
    by (simp add: sample_channel_nose[OF n] sample_channel_background[OF assms(2)]
          sample_channel_other[OF _ _ _ assms(1)])
qed

lemma sample_parse:
  "parse_keypoints COCOOpenPosePredictor sample_output (640, 480) (1 / 20) = Inr sample_pose"
  by (rule sample_parse_any) simp_all

subsection \<open>Thresholding, channels and scaling\<close>

lemma parse_channel_cong:
  assumes "dim0 v' = dim0 v" "dim1 v' = dim1 v" "dim2 v' = dim2 v" "dim3 v' = dim3 v"
    and "entry v' 0 idx = entry v 0 idx"
  shows "parse_channel v' sz thr idx = parse_channel v sz thr idx"
  unfolding parse_channel_def assms by (rule refl)

lemma parse_loop_cong:
  assumes "dim0 v' = dim0 v" "dim1 v' = dim1 v" "dim2 v' = dim2 v" "dim3 v' = dim3 v"
    and "\<forall>idx \<in> set idxs. entry v' 0 idx = entry v 0 idx"
  shows "parse_loop v' sz thr idxs = parse_loop v sz thr idxs"
  using assms(5)
proof (induction idxs)
  case Nil
  then show ?case by simp
next
  case (Cons idx idxs)
  have c: "parse_channel v' sz thr idx = parse_channel v sz thr idx"
    using assms(1-4) Cons.prems by (intro parse_channel_cong) simp_all
  have l: "parse_loop v' sz thr idxs = parse_loop v sz thr idxs"
    using Cons by simp
  show ?case unfolding parse_loop.simps c l by (rule refl)
qed

lemma background_last:
  "map_of (BODY_PARTS COCOOpenPosePredictor) ''Background''
     = Some (length (BODY_PARTS COCOOpenPosePredictor) - 1)"
  "map_of (BODY_PARTS MPIOpenPosePredictor) ''Background''
     = Some (length (BODY_PARTS MPIOpenPosePredictor) - 1)"
  "map_of (BODY_PARTS Body25OpenPosePredictor) ''Background''
     = Some (length (BODY_PARTS Body25OpenPosePredictor) - 1)"
  by (simp_all add: COCOOpenPosePredictor_def MPIOpenPosePredictor_def Body25OpenPosePredictor_def)

lemma slot_cases:
  assumes "parse_keypoints self v sz thr = Inr pts" "idx < length (BODY_PARTS self)"
  shows "(pts ! idx \<noteq> None \<longleftrightarrow> thr < Max (set (plane_values v idx)))"
    and "pts ! idx = Some (x, y, c) \<Longrightarrow> c = Max (set (plane_values v idx)) \<and> thr < c"
    and "pts ! idx = None \<Longrightarrow> Max (set (plane_values v idx)) \<le> thr"
  using parse_keypoints_slot[OF assms] by (auto split: if_splits)

text \<open>
  Claim C1. For every network output, image size and threshold, the pose has one entry per
  \<open>BODY_PARTS\<close> index, and the entry of a channel is a keypoint exactly when the largest
  confidence of that channel's plane strictly exceeds the threshold: an emitted keypoint
  carries that maximum, which is \<open>> threshold\<close>, and an absent entry means the maximum is
  \<open>\<le> threshold\<close>. The extraction returns a pose for every output that has an image, the
  channels of the topology and a non-empty plane.
\<close>

theorem parse_keypoints_threshold:
  "(well_formed self v \<and> \<bar>fst sz\<bar> \<le> 2 ^ 63 \<and> \<bar>snd sz\<bar> \<le> 2 ^ 63 \<longrightarrow>
      (\<exists>pts. parse_keypoints self v sz thr = Inr pts))
   \<and> (parse_keypoints self v sz thr = Inr pts \<longrightarrow>
        length pts = length (BODY_PARTS self)
      \<and> (\<forall>idx < length (BODY_PARTS self).
            (pts ! idx \<noteq> None \<longleftrightarrow> thr < Max (set (plane_values v idx)))
          \<and> (\<forall>x y c. pts ! idx = Some (x, y, c) \<longrightarrow> c = Max (set (plane_values v idx)) \<and> thr < c)
          \<and> (pts ! idx = None \<longrightarrow> Max (set (plane_values v idx)) \<le> thr)))"
proof (intro conjI impI allI)
  assume "well_formed self v \<and> \<bar>fst sz\<bar> \<le> 2 ^ 63 \<and> \<bar>snd sz\<bar> \<le> 2 ^ 63"
  then show "\<exists>pts. parse_keypoints self v sz thr = Inr pts"
    using parse_keypoints_total[of self v sz thr] by blast
next
  assume "parse_keypoints self v sz thr = Inr pts"
  then show "length pts = length (BODY_PARTS self)" by (rule parse_keypoints_Inr(1))
next
  fix idx
  assume p: "parse_keypoints self v sz thr = Inr pts" and i: "idx < length (BODY_PARTS self)"
  show "pts ! idx \<noteq> None \<longleftrightarrow> thr < Max (set (plane_values v idx))"
    using p i by (rule slot_cases(1))
  show "c = Max (set (plane_values v idx))" if "pts ! idx = Some (x, y, c)" for x y c
    using slot_cases(2)[OF p i that] by simp
  show "thr < c" if "pts ! idx = Some (x, y, c)" for x y c
    using slot_cases(2)[OF p i that] by simp
  show "Max (set (plane_values v idx)) \<le> thr" if "pts ! idx = None"
    using p i that by (rule slot_cases(3))
qed

lemma sample_well_formed: "well_formed COCOOpenPosePredictor sample_output"
  by (simp add: well_formed_def sample_output_def COCOOpenPosePredictor_def)

text \<open>The threshold theorem on the sample output, image 640 by 480, threshold \<open>1/20\<close>.\<close>

theorem parse_keypoints_threshold_witness:
  "well_formed COCOOpenPosePredictor sample_output
   \<and> \<bar>fst (640 :: int, 480 :: int)\<bar> \<le> 2 ^ 63 \<and> \<bar>snd (640 :: int, 480 :: int)\<bar> \<le> 2 ^ 63
   \<and> parse_keypoints COCOOpenPosePredictor sample_output (640, 480) (1 / 20) = Inr sample_pose
   \<and> length sample_pose = length (BODY_PARTS COCOOpenPosePredictor)
   \<and> 0 < length (BODY_PARTS COCOOpenPosePredictor) \<and> 1 < length (BODY_PARTS COCOOpenPosePredictor)
   \<and> sample_pose ! 0 = Some (7505999378950827 / 35184372088832, 240, 9 / 10)
   \<and> 9 / 10 = Max (set (plane_values sample_output 0)) \<and> (1 / 20 :: rat) < 9 / 10
   \<and> (sample_pose ! 0 \<noteq> None) = (1 / 20 < Max (set (plane_values sample_output 0)))
   \<and> sample_pose ! 1 = None
   \<and> Max (set (plane_values sample_output 1)) \<le> 1 / 20
   \<and> (sample_pose ! 1 \<noteq> None) = (1 / 20 < Max (set (plane_values sample_output 1)))"
proof -
  have sz: "\<bar>fst (640 :: int, 480 :: int)\<bar> \<le> 2 ^ 63 \<and> \<bar>snd (640 :: int, 480 :: int)\<bar> \<le> 2 ^ 63"
    by simp
  have l: "0 < length (BODY_PARTS COCOOpenPosePredictor)" "1 < length (BODY_PARTS COCOOpenPosePredictor)"
    by (simp_all add: coco_length)
  have p: "sample_pose ! 0 = Some (7505999378950827 / 35184372088832, 240, 9 / 10)"
    "sample_pose ! 1 = None"
    by (simp_all add: sample_pose_def)
  note t = parse_keypoints_threshold[of COCOOpenPosePredictor sample_output "(640, 480)" "1 / 20" sample_pose,
        THEN conjunct2, THEN mp, OF sample_parse]
  have t0: "(sample_pose ! 0 \<noteq> None) = (1 / 20 < Max (set (plane_values sample_output 0)))"
    "9 / 10 = Max (set (plane_values sample_output 0)) \<and> (1 / 20 :: rat) < 9 / 10"
    using t l(1) p(1) by blast+
  have t1: "(sample_pose ! 1 \<noteq> None) = (1 / 20 < Max (set (plane_values sample_output 1)))"
    "Max (set (plane_values sample_output 1)) \<le> 1 / 20"
    using t l(2) p(2) by blast+
  show ?thesis
    using sample_well_formed sz sample_parse t l p t0 t1 by blast
qed

text \<open>
  Claim C4, as amended. The extraction processes exactly the channel indices
  \<open>0 .. len(BODY_PARTS) - 1\<close>: the pose has \<open>len(BODY_PARTS)\<close> entries, and outputs of one
  shape that agree on these channels give the same result, so no later channel (a
  part-affinity map) is read. In the three models \<open>'Background'\<close> is the last of these
  indices, and its channel is thresholded like every other: its entry is a keypoint
  exactly when the background plane's maximum exceeds the threshold.
\<close>

theorem parse_keypoints_channels:
  "(parse_keypoints self v sz thr = Inr pts \<longrightarrow> length pts = length (BODY_PARTS self))
   \<and> (dim0 v' = dim0 v \<and> dim1 v' = dim1 v \<and> dim2 v' = dim2 v \<and> dim3 v' = dim3 v
        \<and> (\<forall>idx < length (BODY_PARTS self). entry v' 0 idx = entry v 0 idx) \<longrightarrow>
      parse_keypoints self v' sz thr = parse_keypoints self v sz thr)
   \<and> (self \<in> {COCOOpenPosePredictor, MPIOpenPosePredictor, Body25OpenPosePredictor} \<longrightarrow>
        map_of (BODY_PARTS self) ''Background'' = Some (length (BODY_PARTS self) - 1))
   \<and> (parse_keypoints self v sz thr = Inr pts \<longrightarrow>
        map_of (BODY_PARTS self) ''Background'' = Some bg \<longrightarrow> bg < length (BODY_PARTS self) \<longrightarrow>
        (pts ! bg \<noteq> None \<longleftrightarrow> thr < Max (set (plane_values v bg))))"
proof (intro conjI impI)
  assume "parse_keypoints self v sz thr = Inr pts"
  then show "length pts = length (BODY_PARTS self)" by (rule parse_keypoints_Inr(1))
next
  assume h: "dim0 v' = dim0 v \<and> dim1 v' = dim1 v \<and> dim2 v' = dim2 v \<and> dim3 v' = dim3 v
        \<and> (\<forall>idx < length (BODY_PARTS self). entry v' 0 idx = entry v 0 idx)"
  then have "\<forall>idx \<in> set [0..<length (BODY_PARTS self)]. entry v' 0 idx = entry v 0 idx" by simp
  then show "parse_keypoints self v' sz thr = parse_keypoints self v sz thr"
    unfolding parse_keypoints_def using h by (intro parse_loop_cong) simp_all
next
  assume "self \<in> {COCOOpenPosePredictor, MPIOpenPosePredictor, Body25OpenPosePredictor}"
  then show "map_of (BODY_PARTS self) ''Background'' = Some (length (BODY_PARTS self) - 1)"
    using background_last by blast
next
  assume "parse_keypoints self v sz thr = Inr pts" "bg < length (BODY_PARTS self)"
  then show "pts ! bg \<noteq> None \<longleftrightarrow> thr < Max (set (plane_values v bg))" by (rule slot_cases(1))
qed

text \<open>
  A keypoint is emitted for the background channel: in the sample output the background
  plane holds \<open>3/4\<close>, above the threshold, and entry 18 of the pose is present.
\<close>

theorem parse_keypoints_background_counterexample:
  "map_of (BODY_PARTS COCOOpenPosePredictor) ''Background'' = Some 18
   \<and> parse_keypoints COCOOpenPosePredictor sample_output (640, 480) (1 / 20) = Inr sample_pose
   \<and> sample_pose ! 18 = Some (0, 0, 3 / 4)"
  by (simp add: sample_parse) (simp add: COCOOpenPosePredictor_def sample_pose_def)

text \<open>The channel theorem on the two sample outputs for the COCO model.\<close>

theorem parse_keypoints_channels_witness:
  "parse_keypoints COCOOpenPosePredictor sample_output (640, 480) (1 / 20) = Inr sample_pose
   \<and> dim0 sample_output_paf = dim0 sample_output \<and> dim1 sample_output_paf = dim1 sample_output
   \<and> dim2 sample_output_paf = dim2 sample_output \<and> dim3 sample_output_paf = dim3 sample_output
   \<and> entry sample_output_paf 0 18 = entry sample_output 0 18
   \<and> entry sample_output_paf 0 19 \<noteq> entry sample_output 0 19
   \<and> COCOOpenPosePredictor \<in> {COCOOpenPosePredictor, MPIOpenPosePredictor, Body25OpenPosePredictor}
   \<and> map_of (BODY_PARTS COCOOpenPosePredictor) ''Background'' = Some 18
   \<and> 18 < length (BODY_PARTS COCOOpenPosePredictor)
   \<and> length sample_pose = length (BODY_PARTS COCOOpenPosePredictor)
   \<and> parse_keypoints COCOOpenPosePredictor sample_output_paf (640, 480) (1 / 20)
       = parse_keypoints COCOOpenPosePredictor sample_output (640, 480) (1 / 20)
   \<and> map_of (BODY_PARTS COCOOpenPosePredictor) ''Background''
       = Some (length (BODY_PARTS COCOOpenPosePredictor) - 1)
   \<and> (sample_pose ! 18 \<noteq> None) = (1 / 20 < Max (set (plane_values sample_output 18)))"
proof -
  have d: "dim0 sample_output_paf = dim0 sample_output \<and> dim1 sample_output_paf = dim1 sample_output
     \<and> dim2 sample_output_paf = dim2 sample_output \<and> dim3 sample_output_paf = dim3 sample_output
     \<and> (\<forall>idx < length (BODY_PARTS COCOOpenPosePredictor).
           entry sample_output_paf 0 idx = entry sample_output 0 idx)"
    by (auto simp: sample_output_paf_def coco_length)
  have e: "entry sample_output_paf 0 18 = entry sample_output 0 18"
    by (simp add: sample_output_paf_def)
  have "entry sample_output_paf 0 19 0 0 \<noteq> entry sample_output 0 19 0 0"
    by (simp add: sample_output_paf_def sample_output_def)
  then have n: "entry sample_output_paf 0 19 \<noteq> entry sample_output 0 19" by metis
  have m: "map_of (BODY_PARTS COCOOpenPosePredictor) ''Background'' = Some 18"
    by (simp add: COCOOpenPosePredictor_def)
  have l: "18 < length (BODY_PARTS COCOOpenPosePredictor)" by (simp add: coco_length)
  note t = parse_keypoints_channels[of COCOOpenPosePredictor sample_output "(640, 480)" "1 / 20"
      sample_pose sample_output_paf 18]
  show ?thesis using sample_parse d e n m l t by blast
qed

lemma rescale_quotient: "of_int (w * int p) / of_int (int n) = rescale w p n"
  by (simp add: rescale_def)

text \<open>
  Claim C8, as amended. An emitted keypoint \<open>(x, y, c)\<close> of channel \<open>idx\<close> comes from a location
  \<open>(rowMax, colMax)\<close> of the plane that holds the channel's maximum \<open>c\<close>, and
  \<open>x = imageWidth * colMax / W\<close>, \<open>y = imageHeight * rowMax / H\<close> as Python evaluates
  these quotients of integers: the double nearest to the exact linear rescaling, equal to
  it when it is representable and within half a unit in the last place otherwise.
\<close>

theorem parse_keypoints_scaling:
  assumes "parse_keypoints self v sz thr = Inr pts" "idx < length (BODY_PARTS self)"
    and "pts ! idx = Some (x, y, c)"
  shows "\<exists>rowMax colMax.
           rowMax < dim2 v \<and> colMax < dim3 v
         \<and> entry v 0 idx rowMax colMax = c \<and> c = Max (set (plane_values v idx))
         \<and> int_truediv (fst sz * int colMax) (int (dim3 v)) = Inr x
         \<and> int_truediv (snd sz * int rowMax) (int (dim2 v)) = Inr y
         \<and> round_double (rescale (fst sz) colMax (dim3 v)) = Finite x
         \<and> round_double (rescale (snd sz) rowMax (dim2 v)) = Finite y
         \<and> \<bar>x - rescale (fst sz) colMax (dim3 v)\<bar>
             \<le> max \<bar>rescale (fst sz) colMax (dim3 v)\<bar> (2 powi (- 1022)) / 2 ^ 53
         \<and> \<bar>y - rescale (snd sz) rowMax (dim2 v)\<bar>
             \<le> max \<bar>rescale (snd sz) rowMax (dim2 v)\<bar> (2 powi (- 1022)) / 2 ^ 53
         \<and> (is_double (rescale (fst sz) colMax (dim3 v)) \<longrightarrow> x = rescale (fst sz) colMax (dim3 v))
         \<and> (is_double (rescale (snd sz) rowMax (dim2 v)) \<longrightarrow> y = rescale (snd sz) rowMax (dim2 v))"
proof -
  from parse_keypoints_slot[OF assms(1,2)]
  obtain point x' y' where s:
    "snd point < dim2 v" "fst point < dim3 v"
    "entry v 0 idx (snd point) (fst point) = Max (set (plane_values v idx))"
    "int_truediv (fst sz * int (fst point)) (int (dim3 v)) = Inr x'"
    "int_truediv (snd sz * int (snd point)) (int (dim2 v)) = Inr y'"
    "pts ! idx = (if thr < Max (set (plane_values v idx))
                  then Some (x', y', Max (set (plane_values v idx))) else None)"
    by blast
  have e: "x' = x" "y' = y" "c = Max (set (plane_values v idx))"
    using s(6) assms(3) by (auto split: if_splits)
  have rx: "round_double (rescale (fst sz) (fst point) (dim3 v)) = Finite x"
    using int_truediv_Inr(2)[OF s(4)] unfolding rescale_quotient e .
  have ry: "round_double (rescale (snd sz) (snd point) (dim2 v)) = Finite y"
    using int_truediv_Inr(2)[OF s(5)] unfolding rescale_quotient e .
  have ix: "is_double (rescale (fst sz) (fst point) (dim3 v)) \<longrightarrow> x = rescale (fst sz) (fst point) (dim3 v)"
    using rx by (simp add: is_double_def)
  have iy: "is_double (rescale (snd sz) (snd point) (dim2 v)) \<longrightarrow> y = rescale (snd sz) (snd point) (dim2 v)"
    using ry by (simp add: is_double_def)
  show ?thesis
    using s(1,2,3) s(4,5)[unfolded e] e(3) rx ry round_double_error[OF rx] round_double_error[OF ry] ix iy
    by blast
qed

text \<open>The scaling theorem for the nose of the sample output: \<open>x = 640 * 1 / 3\<close>, \<open>y = 480 * 1 / 2\<close>.\<close>

theorem parse_keypoints_scaling_witness:
  "parse_keypoints COCOOpenPosePredictor sample_output (640, 480) (1 / 20) = Inr sample_pose
   \<and> 0 < length (BODY_PARTS COCOOpenPosePredictor)
   \<and> sample_pose ! 0 = Some (7505999378950827 / 35184372088832, 240, 9 / 10)
   \<and> (\<exists>rowMax colMax.
         rowMax < dim2 sample_output \<and> colMax < dim3 sample_output
       \<and> entry sample_output 0 0 rowMax colMax = 9 / 10
       \<and> 9 / 10 = Max (set (plane_values sample_output 0))
       \<and> int_truediv (fst (640 :: int, 480 :: int) * int colMax) (int (dim3 sample_output))
           = Inr (7505999378950827 / 35184372088832)
       \<and> int_truediv (snd (640 :: int, 480 :: int) * int rowMax) (int (dim2 sample_output)) = Inr 240
       \<and> round_double (rescale (fst (640 :: int, 480 :: int)) colMax (dim3 sample_output))
           = Finite (7505999378950827 / 35184372088832)
       \<and> round_double (rescale (snd (640 :: int, 480 :: int)) rowMax (dim2 sample_output)) = Finite 240
       \<and> \<bar>7505999378950827 / 35184372088832 - rescale (fst (640 :: int, 480 :: int)) colMax (dim3 sample_output)\<bar>
           \<le> max \<bar>rescale (fst (640 :: int, 480 :: int)) colMax (dim3 sample_output)\<bar> (2 powi (- 1022)) / 2 ^ 53
       \<and> \<bar>240 - rescale (snd (640 :: int, 480 :: int)) rowMax (dim2 sample_output)\<bar>
           \<le> max \<bar>rescale (snd (640 :: int, 480 :: int)) rowMax (dim2 sample_output)\<bar> (2 powi (- 1022)) / 2 ^ 53
       \<and> (is_double (rescale (fst (640 :: int, 480 :: int)) colMax (dim3 sample_output)) \<longrightarrow>
            7505999378950827 / 35184372088832 = rescale (fst (640 :: int, 480 :: int)) colMax (dim3 sample_output))
       \<and> (is_double (rescale (snd (640 :: int, 480 :: int)) rowMax (dim2 sample_output)) \<longrightarrow>
            240 = rescale (snd (640 :: int, 480 :: int)) rowMax (dim2 sample_output)))"
proof -
  have l: "0 < length (BODY_PARTS COCOOpenPosePredictor)" by (simp add: coco_length)
  have p: "sample_pose ! 0 = Some (7505999378950827 / 35184372088832, 240, 9 / 10)"
    by (simp add: sample_pose_def)
  show ?thesis
    using sample_parse l p parse_keypoints_scaling[OF sample_parse l p] by (intro conjI)
qed


lemma round_double_third: "round_double (1 / 3) = Finite (6004799503160661 / 18014398509481984)"
  using round_double_eval[of "- 2" "1 / 3"] by (simp add: round_half_even_eval)

lemma round_double_sample_ratio:
  "round_double (7505999378950827 / 35184372088832 / 640) = Finite (3002399751580331 / 9007199254740992)"
  using round_double_eval[of "- 2" "7505999378950827 / 35184372088832 / 640"]
  by (simp add: round_half_even_eval)

text \<open>
  The rescaling is not exact: for the nose of the sample output \<open>x\<close> is
  \<open>213.33333333333334\<close>, not \<open>640/3\<close>, and \<open>x / 640\<close> differs from \<open>1 / 3\<close> both as
  a rational and as the floats Python computes (\<open>0.33333333333333337\<close> and
  \<open>0.3333333333333333\<close>).
\<close>

theorem parse_keypoints_ratio_counterexample:
  "parse_keypoints COCOOpenPosePredictor sample_output (640, 480) (1 / 20) = Inr sample_pose
   \<and> sample_pose ! 0 = Some (7505999378950827 / 35184372088832, 240, 9 / 10)
   \<and> entry sample_output 0 0 1 1 = 9 / 10 \<and> dim3 sample_output = 3
   \<and> int_truediv (640 * 1) 3 = Inr (7505999378950827 / 35184372088832)
   \<and> 7505999378950827 / 35184372088832 \<noteq> rescale 640 1 3
   \<and> 7505999378950827 / 35184372088832 / 640 \<noteq> (1 :: rat) / 3
   \<and> round_double (7505999378950827 / 35184372088832 / 640) \<noteq> round_double (1 / 3)"
proof -
  have a: "sample_pose ! 0 = Some (7505999378950827 / 35184372088832, 240, 9 / 10)"
    by (simp add: sample_pose_def)
  have b: "entry sample_output 0 0 1 1 = 9 / 10 \<and> dim3 sample_output = 3"
    by (simp add: sample_output_def)
  have c: "int_truediv (640 * 1) 3 = Inr (7505999378950827 / 35184372088832)"
    by (simp add: int_truediv_def round_double_640_3)
  have d: "7505999378950827 / 35184372088832 \<noteq> rescale 640 1 3
     \<and> 7505999378950827 / 35184372088832 / 640 \<noteq> (1 :: rat) / 3"
    by (simp add: rescale_def)
  have e: "round_double (7505999378950827 / 35184372088832 / 640) \<noteq> round_double (1 / 3)"
    unfolding round_double_sample_ratio round_double_third by simp
  show ?thesis using sample_parse a b c d e by blast
qed

section \<open>Properties of \<open>visualize\<close>\<close>

subsection \<open>The two loops\<close>

lemma cv2_draw_other: "a \<noteq> img \<Longrightarrow> cells (cv2_draw d img s) a = cells s a"
  by (simp add: cv2_draw_def)

lemma cv2_draw_same:
  "cells (cv2_draw d img s) img = (fst (cells s img), snd (cells s img) @ [d])"
  by (simp add: cv2_draw_def)

lemma cv2_draw_next: "next_free (cv2_draw d img s) = next_free s"
  by (simp add: cv2_draw_def)

lemma visualize_points_loop_frame:
  assumes "visualize_points_loop idxs kps img put_text thr s = (res, s')"
  shows "next_free s' = next_free s \<and> (\<forall>a. a \<noteq> img \<longrightarrow> cells s' a = cells s a)
         \<and> fst (cells s' img) = fst (cells s img)
         \<and> (\<exists>marks. snd (cells s' img) = snd (cells s img) @ marks \<and> (\<forall>d \<in> set marks. \<not> is_line d))"
  using assms
proof (induction idxs arbitrary: s)
  case Nil
  then show ?case by simp
next
  case (Cons i idxs)
  show ?case
  proof (cases "list_get kps i")
    case (Inl e)
    then show ?thesis using Cons.prems by simp
  next
    case (Inr kp)
    show ?thesis
    proof (cases kp)
      case None
      then show ?thesis using Cons.IH[of s] Cons.prems Inr by simp
    next
      case (Some t)
      obtain x y prob where t: "t = (x, y, prob)" by (cases t)
      show ?thesis
      proof (cases "thr < prob")
        case False
        then show ?thesis using Cons.IH[of s] Cons.prems Inr Some t by simp
      next
        case True
        define s1 where "s1 = cv2_draw (Circle (py_trunc x, py_trunc y)) img s"
        define s2 where "s2 = (if put_text then cv2_draw (PutText i (py_trunc x, py_trunc y)) img s1 else s1)"
        have step: "visualize_points_loop idxs kps img put_text thr s2 = (res, s')"
          using Cons.prems Inr Some t True by (cases put_text) (simp_all add: s1_def s2_def Let_def)
        note ih = Cons.IH[OF step]
        have n: "next_free s2 = next_free s" by (simp add: s2_def s1_def cv2_draw_next)
        have o: "\<forall>a. a \<noteq> img \<longrightarrow> cells s2 a = cells s a"
          by (simp add: s2_def s1_def cv2_draw_other)
        have f: "fst (cells s2 img) = fst (cells s img)"
          by (simp add: s2_def s1_def cv2_draw_same)
        have m: "\<exists>marks. snd (cells s2 img) = snd (cells s img) @ marks \<and> (\<forall>d \<in> set marks. \<not> is_line d)"
        proof (cases put_text)
          case True
          have "snd (cells s2 img) = snd (cells s img) @ [Circle (py_trunc x, py_trunc y), PutText i (py_trunc x, py_trunc y)]"
            using True by (simp add: s2_def s1_def cv2_draw_same)
          moreover have "\<forall>d \<in> set [Circle (py_trunc x, py_trunc y), PutText i (py_trunc x, py_trunc y)]. \<not> is_line d"
            by (simp add: is_line_def)
          ultimately show ?thesis by blast
        next
          case False
          have "snd (cells s2 img) = snd (cells s img) @ [Circle (py_trunc x, py_trunc y)]"
            using False by (simp add: s2_def s1_def cv2_draw_same)
          moreover have "\<forall>d \<in> set [Circle (py_trunc x, py_trunc y)]. \<not> is_line d"
            by (simp add: is_line_def)
          ultimately show ?thesis by blast
        qed
        from m obtain marks where m1: "snd (cells s2 img) = snd (cells s img) @ marks"
          "\<forall>d \<in> set marks. \<not> is_line d" by blast
        from ih obtain marks' where m2: "snd (cells s' img) = snd (cells s2 img) @ marks'"
          "\<forall>d \<in> set marks'. \<not> is_line d" by blast
        have "snd (cells s' img) = snd (cells s img) @ (marks @ marks')" using m1(1) m2(1) by simp
        moreover have "\<forall>d \<in> set (marks @ marks'). \<not> is_line d" using m1(2) m2(2) by auto
        ultimately have "\<exists>marks. snd (cells s' img) = snd (cells s img) @ marks \<and> (\<forall>d \<in> set marks. \<not> is_line d)"
          by blast
        then show ?thesis using ih n o f by simp
      qed
    qed
  qed
qed

lemma visualize_points_loop_ok:
  fixes s :: "'p store"
  assumes "\<forall>i \<in> set idxs. i < length kps"
  shows "fst (visualize_points_loop idxs kps img put_text thr s) = None"
  using assms
proof (induction idxs arbitrary: s)
  case Nil
  then show ?case by simp
next
  case (Cons i idxs)
  then have i: "list_get kps i = Inr (kps ! i)" by (simp add: list_get_def)
  have ih: "fst (visualize_points_loop idxs kps img put_text thr s') = None"
    for s' :: "'p store"
    using Cons.IH[of s'] Cons.prems by simp
  show ?case
    by (cases "kps ! i") (auto simp: i ih Let_def split: prod.splits)
qed

lemma dict_get_Inr: "dict_get d k = Inr p \<longleftrightarrow> map_of d k = Some p"
  by (simp add: dict_get_def split: option.splits)

lemma list_get_Inr: "list_get xs i = Inr x \<longleftrightarrow> i < length xs \<and> xs ! i = x"
  by (auto simp: list_get_def)

lemma list_get_Inl: "list_get xs i = Inl e \<longleftrightarrow> \<not> i < length xs \<and> e = IndexError"
  by (auto simp: list_get_def)

lemma skeleton_loop_frame:
  fixes s :: "'p store"
  assumes "skeleton_loop self pairs kps img thr s = (res, s')"
  shows "next_free s' = next_free s \<and> (\<forall>a. a \<noteq> img \<longrightarrow> cells s' a = cells s a)
         \<and> fst (cells s' img) = fst (cells s img)"
  using assms
proof (induction pairs arbitrary: s)
  case Nil
  then show ?case by simp
next
  case (Cons pair pairs)
  have ih: "next_free s' = next_free t \<and> (\<forall>a. a \<noteq> img \<longrightarrow> cells s' a = cells t a)
         \<and> fst (cells s' img) = fst (cells t img)"
    if "skeleton_loop self pairs kps img thr t = (res, s')" for t :: "'p store"
    using Cons.IH[OF that] .
  have dr: "next_free s' = next_free s \<and> (\<forall>a. a \<noteq> img \<longrightarrow> cells s' a = cells s a)
         \<and> fst (cells s' img) = fst (cells s img)"
    if "skeleton_loop self pairs kps img thr (cv2_draw d img s) = (res, s')" for d
    using ih[OF that] by (simp add: cv2_draw_next cv2_draw_other cv2_draw_same)
  show ?case
    using Cons.prems ih[of s] dr
    by (auto split: sum.splits option.splits prod.splits if_splits)
qed

lemma edge_of_drawn:
  assumes "map_of (BODY_PARTS self) (fst pair) = Some p1" "map_of (BODY_PARTS self) (snd pair) = Some p2"
    and "p1 < length kps" "kps ! p1 = Some (x1, y1, c1)" "thr < c1"
    and "p2 < length kps" "kps ! p2 = Some (x2, y2, c2)" "thr < c2"
  shows "edge_of self kps thr pair = [Line (py_trunc x1, py_trunc y1) (py_trunc x2, py_trunc y2)]"
  using assms by (simp add: edge_of_def endpoint_def)

lemma edge_of_first_hidden:
  assumes "map_of (BODY_PARTS self) (fst pair) = Some p1" "p1 < length kps"
    and "kps ! p1 = None \<or> (\<exists>x y c. kps ! p1 = Some (x, y, c) \<and> \<not> thr < c)"
  shows "edge_of self kps thr pair = []"
  using assms by (auto simp: edge_of_def endpoint_def split: option.splits)

lemma edge_of_second_hidden:
  assumes "map_of (BODY_PARTS self) (snd pair) = Some p2" "p2 < length kps"
    and "kps ! p2 = None \<or> (\<exists>x y c. kps ! p2 = Some (x, y, c) \<and> \<not> thr < c)"
  shows "edge_of self kps thr pair = []"
  using assms by (auto simp: edge_of_def endpoint_def split: option.splits)

lemma skeleton_loop_edges:
  fixes s :: "'p store"
  assumes "skeleton_loop self pairs kps img thr s = (None, s')"
  shows "snd (cells s' img) = snd (cells s img) @ concat (map (edge_of self kps thr) pairs)"
  using assms
proof (induction pairs arbitrary: s)
  case Nil
  then show ?case by simp
next
  case (Cons pair pairs)
  obtain p1 where p1: "map_of (BODY_PARTS self) (fst pair) = Some p1"
    using Cons.prems by (auto simp: dict_get_def split: option.splits sum.splits)
  obtain p2 where p2: "map_of (BODY_PARTS self) (snd pair) = Some p2"
    using Cons.prems p1 by (auto simp: dict_get_def split: option.splits sum.splits)
  have d: "dict_get (BODY_PARTS self) (fst pair) = Inr p1" "dict_get (BODY_PARTS self) (snd pair) = Inr p2"
    using p1 p2 by (simp_all add: dict_get_Inr)
  have l1: "p1 < length kps"
    using Cons.prems d by (auto simp: list_get_def split: if_splits)
  then have g1: "list_get kps p1 = Inr (kps ! p1)" by (simp add: list_get_def)
  show ?case
  proof (cases "kps ! p1")
    case None
    then have "edge_of self kps thr pair = []" using p1 l1 by (intro edge_of_first_hidden) auto
    moreover have "skeleton_loop self pairs kps img thr s = (None, s')"
      using Cons.prems d g1 None by simp
    ultimately show ?thesis using Cons.IH by simp
  next
    case (Some t1)
    obtain x1 y1 c1 where t1: "t1 = (x1, y1, c1)" by (cases t1)
    show ?thesis
    proof (cases "thr < c1")
      case False
      then have "edge_of self kps thr pair = []"
        using p1 l1 Some t1 by (intro edge_of_first_hidden) auto
      moreover have "skeleton_loop self pairs kps img thr s = (None, s')"
        using Cons.prems d g1 Some t1 False by simp
      ultimately show ?thesis using Cons.IH by simp
    next
      case True
      have l2: "p2 < length kps"
        using Cons.prems d g1 Some t1 True by (auto simp: list_get_def split: if_splits)
      then have g2: "list_get kps p2 = Inr (kps ! p2)" by (simp add: list_get_def)
      show ?thesis
      proof (cases "kps ! p2")
        case None
        then have "edge_of self kps thr pair = []" using p2 l2 by (intro edge_of_second_hidden) auto
        moreover have "skeleton_loop self pairs kps img thr s = (None, s')"
          using Cons.prems d g1 g2 Some t1 True None by simp
        ultimately show ?thesis using Cons.IH by simp
      next
        case s2: (Some t2)
        obtain x2 y2 c2 where t2: "t2 = (x2, y2, c2)" by (cases t2)
        show ?thesis
        proof (cases "thr < c2")
          case False
          then have "edge_of self kps thr pair = []"
            using p2 l2 s2 t2 by (intro edge_of_second_hidden) auto
          moreover have "skeleton_loop self pairs kps img thr s = (None, s')"
            using Cons.prems d g1 g2 Some t1 True s2 t2 False by simp
          ultimately show ?thesis using Cons.IH by simp
        next
          case c2: True
          let ?d = "Line (py_trunc x1, py_trunc y1) (py_trunc x2, py_trunc y2)"
          have e: "edge_of self kps thr pair = [?d]"
            using edge_of_drawn[OF p1 p2 l1 _ True l2 _ c2, of x1 y1 x2 y2] Some t1 s2 t2 by simp
          have "skeleton_loop self pairs kps img thr (cv2_draw ?d img s) = (None, s')"
            using Cons.prems d g1 g2 Some t1 True s2 t2 c2 by simp
          from Cons.IH[OF this] show ?thesis by (simp add: e cv2_draw_same)
        qed
      qed
    qed
  qed
qed

lemma skeleton_loop_ok:
  fixes s :: "'p store"
  assumes "\<forall>pair \<in> set pairs.
             (case map_of (BODY_PARTS self) (fst pair) of None \<Rightarrow> False | Some p \<Rightarrow> p < length kps) \<and>
             (case map_of (BODY_PARTS self) (snd pair) of None \<Rightarrow> False | Some p \<Rightarrow> p < length kps)"
  shows "fst (skeleton_loop self pairs kps img thr s) = None"
  using assms
proof (induction pairs arbitrary: s)
  case Nil
  then show ?case by simp
next
  case (Cons pair pairs)
  have ih: "fst (skeleton_loop self pairs kps img thr t) = None" for t :: "'p store"
    using Cons.IH[of t] Cons.prems by simp
  obtain p1 p2 where p: "map_of (BODY_PARTS self) (fst pair) = Some p1" "p1 < length kps"
    "map_of (BODY_PARTS self) (snd pair) = Some p2" "p2 < length kps"
    using Cons.prems by (auto split: option.splits)
  have d: "dict_get (BODY_PARTS self) (fst pair) = Inr p1" "dict_get (BODY_PARTS self) (snd pair) = Inr p2"
    "list_get kps p1 = Inr (kps ! p1)" "list_get kps p2 = Inr (kps ! p2)"
    using p by (simp_all add: dict_get_Inr list_get_def)
  show ?case
    by (cases "kps ! p1"; cases "kps ! p2") (auto simp: d ih split: prod.splits)
qed

lemma edge_of_iff:
  "edge_of self kps thr pair \<noteq> [] \<longleftrightarrow>
     visible thr (endpoint self kps (fst pair)) \<and> visible thr (endpoint self kps (snd pair))"
  by (auto simp: edge_of_def visible_def split: option.splits prod.splits)

lemma visualize_cases:
  fixes s :: "'p store"
  assumes "visualize self kps img put_text thr s = (res, s')"
  obtains s1 e where "visualize_points_loop [0..<length (BODY_PARTS self)] kps (next_free s) put_text thr
                 \<lparr> cells = (cells s)(next_free s := cells s img), next_free = Suc (next_free s) \<rparr> = (Some e, s1)"
      and "res = Inl e" and "s' = s1"
  | s1 s2 r where "visualize_points_loop [0..<length (BODY_PARTS self)] kps (next_free s) put_text thr
                 \<lparr> cells = (cells s)(next_free s := cells s img), next_free = Suc (next_free s) \<rparr> = (None, s1)"
      and "skeleton_loop self (POSE_PAIRS self) kps (next_free s) thr s1 = (r, s2)"
      and "res = (case r of Some e \<Rightarrow> Inl e | None \<Rightarrow> Inr (next_free s))" and "s' = s2"
  using assms unfolding visualize_def visualize_points_def ndarray_copy_def
  by (auto simp: Let_def split: prod.splits option.splits sum.splits)

lemma visualize_frame_lemma:
  fixes s :: "'p store"
  assumes "visualize self kps img put_text thr s = (res, s')"
  shows "next_free s' = Suc (next_free s)"
    and "a \<noteq> next_free s \<Longrightarrow> cells s' a = cells s a"
    and "res = Inr r \<Longrightarrow> r = next_free s"
    and "fst (cells s' (next_free s)) = fst (cells s img)"
proof -
  let ?s0 = "\<lparr> cells = (cells s)(next_free s := cells s img), next_free = Suc (next_free s) \<rparr>"
  have all: "next_free s' = Suc (next_free s) \<and> (\<forall>a. a \<noteq> next_free s \<longrightarrow> cells s' a = cells s a)
      \<and> (\<forall>r. res = Inr r \<longrightarrow> r = next_free s) \<and> fst (cells s' (next_free s)) = fst (cells s img)"
    using assms
  proof (cases rule: visualize_cases)
    case (1 s1 e)
    from visualize_points_loop_frame[OF 1(1)] 1(2,3) show ?thesis by simp
  next
    case (2 s1 s2 r)
    from visualize_points_loop_frame[OF 2(1)] skeleton_loop_frame[OF 2(2)] 2(3,4)
    show ?thesis by (auto split: option.splits)
  qed
  show "next_free s' = Suc (next_free s)" using all by blast
  show "cells s' a = cells s a" if "a \<noteq> next_free s" using all that by blast
  show "r = next_free s" if "res = Inr r" using all that by blast
  show "fst (cells s' (next_free s)) = fst (cells s img)" using all by blast
qed

lemma visualize_drawn:
  fixes s :: "'p store"
  assumes "visualize self kps img put_text thr s = (Inr r, s')"
  shows "\<exists>marks. snd (cells s' r) = snd (cells s img) @ marks @ concat (map (edge_of self kps thr) (POSE_PAIRS self))
           \<and> (\<forall>d \<in> set marks. \<not> is_line d)"
  using assms
proof (cases rule: visualize_cases)
  case (1 s1 e)
  then show ?thesis by simp
next
  case (2 s1 s2 r')
  then have r': "r' = None" and r: "r = next_free s" by (auto split: option.splits)
  from visualize_points_loop_frame[OF 2(1)]
  obtain marks where m: "snd (cells s1 (next_free s)) = snd (cells s img) @ marks"
    "\<forall>d \<in> set marks. \<not> is_line d" by auto
  from skeleton_loop_edges[OF 2(2)[unfolded r']]
  have "snd (cells s2 (next_free s)) = (snd (cells s img) @ marks) @ concat (map (edge_of self kps thr) (POSE_PAIRS self))"
    using m(1) by simp
  then show ?thesis using m(2) 2(4) r by auto
qed

lemma visualize_ok:
  fixes s :: "'p store"
  assumes "topology_ok self" "length (BODY_PARTS self) \<le> length kps"
  shows "fst (visualize self kps img put_text thr s) = Inr (next_free s)"
proof -
  let ?s0 = "\<lparr> cells = (cells s)(next_free s := cells s img), next_free = Suc (next_free s) \<rparr>"
  have "\<forall>i \<in> set [0..<length (BODY_PARTS self)]. i < length kps" using assms(2) by simp
  then have p: "fst (visualize_points_loop [0..<length (BODY_PARTS self)] kps (next_free s) put_text thr ?s0) = None"
    by (rule visualize_points_loop_ok)
  have "\<forall>pair \<in> set (POSE_PAIRS self).
             (case map_of (BODY_PARTS self) (fst pair) of None \<Rightarrow> False | Some p \<Rightarrow> p < length kps) \<and>
             (case map_of (BODY_PARTS self) (snd pair) of None \<Rightarrow> False | Some p \<Rightarrow> p < length kps)"
    using assms unfolding topology_ok_def by (auto split: option.splits)
  then have k: "fst (skeleton_loop self (POSE_PAIRS self) kps (next_free s) thr t) = None" for t :: "'p store"
    by (rule skeleton_loop_ok)
  obtain s1 where s1: "visualize_points_loop [0..<length (BODY_PARTS self)] kps (next_free s) put_text thr ?s0 = (None, s1)"
    using p by (metis prod.collapse)
  obtain s2 where s2: "skeleton_loop self (POSE_PAIRS self) kps (next_free s) thr s1 = (None, s2)"
    using k[of s1] by (metis prod.collapse)
  show ?thesis
    unfolding visualize_def visualize_points_def ndarray_copy_def
    by (simp add: s1 s2 Let_def)
qed

lemma topology_ok_variants:
  "topology_ok COCOOpenPosePredictor" "topology_ok MPIOpenPosePredictor"
  "topology_ok Body25OpenPosePredictor"
  by (simp_all add: topology_ok_def COCOOpenPosePredictor_def MPIOpenPosePredictor_def
        Body25OpenPosePredictor_def)

subsection \<open>Edges, the input image and the topology tables\<close>

text \<open>
  Claim C6. When \<open>visualize\<close> returns, what it has drawn on the returned image is, after
  the markers and labels of the points (no line among them), exactly one line per pair of
  \<open>POSE_PAIRS\<close> whose two endpoints are both present with a confidence strictly above the
  threshold, in the order of \<open>POSE_PAIRS\<close>; a pair with an absent endpoint or one at or
  below the threshold contributes nothing.
\<close>

theorem visualize_edges:
  fixes s :: "'p store"
  assumes "visualize self keypoints img put_text threshold s = (Inr r, s')"
  shows "\<exists>marks.
           snd (cells s' r)
             = snd (cells s img) @ marks @ concat (map (edge_of self keypoints threshold) (POSE_PAIRS self))
         \<and> (\<forall>d \<in> set marks. \<not> is_line d)
         \<and> (\<forall>pair \<in> set (POSE_PAIRS self).
               (edge_of self keypoints threshold pair \<noteq> []) =
               (visible threshold (endpoint self keypoints (fst pair))
                \<and> visible threshold (endpoint self keypoints (snd pair))))"
  using visualize_drawn[OF assms] edge_of_iff[of self keypoints threshold] by blast

text \<open>
  Claim C9. \<open>visualize\<close> works on a copy: whatever it returns or raises, the caller's image
  and every other image of the store are unchanged; the only new image is the copy, which is
  the one returned.
\<close>

theorem visualize_input_unchanged:
  fixes s :: "'p store"
  assumes "visualize self keypoints img put_text threshold s = (res, s')" "img < next_free s"
  shows "cells s' img = cells s img
         \<and> (\<forall>a. a \<noteq> next_free s \<longrightarrow> cells s' a = cells s a)
         \<and> next_free s' = Suc (next_free s)
         \<and> (\<forall>r. res = Inr r \<longrightarrow> r = next_free s \<and> fst (cells s' r) = fst (cells s img))"
proof -
  note f = visualize_frame_lemma[OF assms(1)]
  have "img \<noteq> next_free s" using assms(2) by simp
  then have "cells s' img = cells s img" by (rule f(2))
  moreover have "\<forall>a. a \<noteq> next_free s \<longrightarrow> cells s' a = cells s a" using f(2) by blast
  moreover have "\<forall>r. res = Inr r \<longrightarrow> r = next_free s \<and> fst (cells s' r) = fst (cells s img)"
    using f(3,4) by auto
  ultimately show ?thesis using f(1) by blast
qed

text \<open>
  Claim C10. In the COCO, MPI and Body25 models every name in \<open>POSE_PAIRS\<close> is a key of
  \<open>BODY_PARTS\<close> with an index below \<open>len(BODY_PARTS)\<close>. Hence for a keypoint list of length
  \<open>len(BODY_PARTS)\<close> every lookup \<open>BODY_PARTS[name]\<close>, \<open>keypoints[p1]\<close>, \<open>keypoints[p2]\<close>
  of the skeleton loop succeeds, and \<open>visualize\<close> returns the copy without raising.
\<close>

theorem pose_pairs_in_range:
  fixes s :: "'p store"
  shows "topology_ok COCOOpenPosePredictor \<and> topology_ok MPIOpenPosePredictor
         \<and> topology_ok Body25OpenPosePredictor
         \<and> (self \<in> {COCOOpenPosePredictor, MPIOpenPosePredictor, Body25OpenPosePredictor} \<longrightarrow>
              length keypoints = length (BODY_PARTS self) \<longrightarrow>
              fst (visualize self keypoints img put_text threshold s) = Inr (next_free s)
              \<and> (\<forall>pair \<in> set (POSE_PAIRS self).
                    \<exists>p1 p2. dict_get (BODY_PARTS self) (fst pair) = Inr p1
                          \<and> dict_get (BODY_PARTS self) (snd pair) = Inr p2
                          \<and> list_get keypoints p1 = Inr (keypoints ! p1)
                          \<and> list_get keypoints p2 = Inr (keypoints ! p2)))"
proof (intro conjI impI ballI)
  show "topology_ok COCOOpenPosePredictor" "topology_ok MPIOpenPosePredictor"
    "topology_ok Body25OpenPosePredictor"
    by (rule topology_ok_variants)+
next
  assume m: "self \<in> {COCOOpenPosePredictor, MPIOpenPosePredictor, Body25OpenPosePredictor}"
    and l: "length keypoints = length (BODY_PARTS self)"
  have t: "topology_ok self" using m topology_ok_variants by blast
  show "fst (visualize self keypoints img put_text threshold s) = Inr (next_free s)"
    using t l by (intro visualize_ok) simp_all
  fix pair
  assume "pair \<in> set (POSE_PAIRS self)"
  then have "(case map_of (BODY_PARTS self) (fst pair) of
                None \<Rightarrow> False | Some p \<Rightarrow> p < length (BODY_PARTS self))
           \<and> (case map_of (BODY_PARTS self) (snd pair) of
                None \<Rightarrow> False | Some p \<Rightarrow> p < length (BODY_PARTS self))"
    using t unfolding topology_ok_def by blast
  then obtain p1 p2 where p: "map_of (BODY_PARTS self) (fst pair) = Some p1" "p1 < length keypoints"
    "map_of (BODY_PARTS self) (snd pair) = Some p2" "p2 < length keypoints"
    using l by (auto split: option.splits)
  have "dict_get (BODY_PARTS self) (fst pair) = Inr p1 \<and> dict_get (BODY_PARTS self) (snd pair) = Inr p2
        \<and> list_get keypoints p1 = Inr (keypoints ! p1) \<and> list_get keypoints p2 = Inr (keypoints ! p2)"
    using p by (simp add: dict_get_Inr list_get_def)
  then show "\<exists>p1 p2. dict_get (BODY_PARTS self) (fst pair) = Inr p1
                          \<and> dict_get (BODY_PARTS self) (snd pair) = Inr p2
                          \<and> list_get keypoints p1 = Inr (keypoints ! p1)
                          \<and> list_get keypoints p2 = Inr (keypoints ! p2)"
    by blast
qed

subsection \<open>The sample pose\<close>

lemma py_trunc_samples:
  "py_trunc (21 / 2) = 10" "py_trunc (163 / 4) = 40" "py_trunc 20 = 20" "py_trunc 10 = 10"
  "py_trunc 5 = 5" "py_trunc 40 = 40"
  using floor_divide_of_int_eq[of 21 2, where ?'a = rat] floor_divide_of_int_eq[of 163 4, where ?'a = rat]
  by (simp_all add: py_trunc_def)

lemma sample_keypoints_length: "length sample_keypoints = 19"
  by (simp add: sample_keypoints_def)

lemma sample_visualize_ok:
  "fst (visualize COCOOpenPosePredictor sample_keypoints 0 True (1 / 20) sample_store) = Inr 1"
proof -
  have "length (BODY_PARTS COCOOpenPosePredictor) \<le> length sample_keypoints"
    by (simp add: coco_length sample_keypoints_length)
  from visualize_ok[OF topology_ok_variants(1) this, of 0 True "1 / 20" sample_store]
  show ?thesis by (simp add: sample_store_def)
qed

lemma sample_points_drawn:
  "visualize_points_loop [0, 1, 2, 3, 4, 5, 6, 7, 8, 9, 10, 11, 12, 13, 14, 15, 16, 17, 18]
     sample_keypoints 1 True (1 / 20)
     \<lparr> cells = (cells sample_store)(1 := cells sample_store 0), next_free = 2 \<rparr>
   = (None, \<lparr> cells = (cells sample_store)
                (1 := (0, [Circle (10, 20), PutText 0 (10, 20), Circle (10, 40), PutText 1 (10, 40)])),
             next_free = 2 \<rparr>)"
  by (simp add: sample_keypoints_def list_get_def py_trunc_samples cv2_draw_def sample_store_def Let_def)


lemma sample_skeleton_drawn:
  "skeleton_loop COCOOpenPosePredictor (POSE_PAIRS COCOOpenPosePredictor) sample_keypoints 1 (1 / 20)
     \<lparr> cells = (cells sample_store)
                (1 := (0, [Circle (10, 20), PutText 0 (10, 20), Circle (10, 40), PutText 1 (10, 40)])),
       next_free = 2 \<rparr>
   = (None, \<lparr> cells = (cells sample_store)
                (1 := (0, [Circle (10, 20), PutText 0 (10, 20), Circle (10, 40), PutText 1 (10, 40),
                           Line (10, 40) (10, 20)])),
             next_free = 2 \<rparr>)"
  by (simp add: COCOOpenPosePredictor_def dict_get_def sample_keypoints_def list_get_def
        py_trunc_samples cv2_draw_def sample_store_def)

lemma sample_visualize:
  "visualize COCOOpenPosePredictor sample_keypoints 0 True (1 / 20) sample_store
   = (Inr 1, \<lparr> cells = (cells sample_store)
                (1 := (0, [Circle (10, 20), PutText 0 (10, 20), Circle (10, 40), PutText 1 (10, 40),
                           Line (10, 40) (10, 20)])),
             next_free = 2 \<rparr>)"
proof -
  have n: "next_free sample_store = 1" by (simp add: sample_store_def)
  have s2: "Suc 1 = 2" by simp
  show ?thesis
    unfolding visualize_def visualize_points_def ndarray_copy_def coco_length upt_19 n s2 Let_def
      prod.case sample_points_drawn option.case sum.case sample_skeleton_drawn
    by (rule refl)
qed

lemma sample_edges:
  "concat (map (edge_of COCOOpenPosePredictor sample_keypoints (1 / 20)) (POSE_PAIRS COCOOpenPosePredictor))
     = [Line (10, 40) (10, 20)]"
  by (simp add: COCOOpenPosePredictor_def edge_of_def endpoint_def sample_keypoints_def py_trunc_samples)

text \<open>
  The three rendering theorems on the sample pose: nose and neck are marked, labelled and
  joined; the right shoulder, below the threshold, is neither marked nor joined to the neck.
\<close>

theorem visualize_edges_witness:
  "visualize COCOOpenPosePredictor sample_keypoints 0 True (1 / 20) sample_store
     = (Inr 1, \<lparr> cells = (cells sample_store)
                  (1 := (0, [Circle (10, 20), PutText 0 (10, 20), Circle (10, 40), PutText 1 (10, 40),
                             Line (10, 40) (10, 20)])),
               next_free = 2 \<rparr>)
   \<and> concat (map (edge_of COCOOpenPosePredictor sample_keypoints (1 / 20)) (POSE_PAIRS COCOOpenPosePredictor))
       = [Line (10, 40) (10, 20)]
   \<and> (\<exists>marks.
         snd (cells \<lparr> cells = (cells sample_store)
                  (1 := (0, [Circle (10, 20), PutText 0 (10, 20), Circle (10, 40), PutText 1 (10, 40),
                             Line (10, 40) (10, 20)])),
               next_free = 2 \<rparr> 1)
           = snd (cells sample_store 0) @ marks
               @ concat (map (edge_of COCOOpenPosePredictor sample_keypoints (1 / 20))
                           (POSE_PAIRS COCOOpenPosePredictor))
       \<and> (\<forall>d \<in> set marks. \<not> is_line d)
       \<and> (\<forall>pair \<in> set (POSE_PAIRS COCOOpenPosePredictor).
             (edge_of COCOOpenPosePredictor sample_keypoints (1 / 20) pair \<noteq> []) =
             (visible (1 / 20) (endpoint COCOOpenPosePredictor sample_keypoints (fst pair))
              \<and> visible (1 / 20) (endpoint COCOOpenPosePredictor sample_keypoints (snd pair)))))"
  using sample_visualize sample_edges visualize_edges[OF sample_visualize] by (intro conjI)

theorem visualize_input_unchanged_witness:
  "visualize COCOOpenPosePredictor sample_keypoints 0 True (1 / 20) sample_store
     = (Inr 1, \<lparr> cells = (cells sample_store)
                  (1 := (0, [Circle (10, 20), PutText 0 (10, 20), Circle (10, 40), PutText 1 (10, 40),
                             Line (10, 40) (10, 20)])),
               next_free = 2 \<rparr>)
   \<and> 0 < next_free sample_store
   \<and> cells \<lparr> cells = (cells sample_store)
                  (1 := (0, [Circle (10, 20), PutText 0 (10, 20), Circle (10, 40), PutText 1 (10, 40),
                             Line (10, 40) (10, 20)])),
               next_free = 2 \<rparr> 0 = cells sample_store 0
   \<and> cells sample_store 0 = (0, [])"
proof -
  have n: "0 < next_free sample_store" by (simp add: sample_store_def)
  have c: "cells sample_store 0 = (0, [])" by (simp add: sample_store_def)
  show ?thesis
    using sample_visualize n c visualize_input_unchanged[OF sample_visualize n] by (intro conjI) blast+
qed

theorem pose_pairs_in_range_witness:
  "COCOOpenPosePredictor \<in> {COCOOpenPosePredictor, MPIOpenPosePredictor, Body25OpenPosePredictor}
   \<and> length sample_keypoints = length (BODY_PARTS COCOOpenPosePredictor)
   \<and> fst (visualize COCOOpenPosePredictor sample_keypoints 0 True (1 / 20) sample_store)
       = Inr (next_free sample_store)
   \<and> (''LEye'', ''LEar'') \<in> set (POSE_PAIRS COCOOpenPosePredictor)
   \<and> (\<exists>p1 p2. dict_get (BODY_PARTS COCOOpenPosePredictor) (fst (''LEye'', ''LEar'')) = Inr p1
               \<and> dict_get (BODY_PARTS COCOOpenPosePredictor) (snd (''LEye'', ''LEar'')) = Inr p2
               \<and> list_get sample_keypoints p1 = Inr (sample_keypoints ! p1)
               \<and> list_get sample_keypoints p2 = Inr (sample_keypoints ! p2))
   \<and> topology_ok COCOOpenPosePredictor"
proof -
  have m: "COCOOpenPosePredictor \<in> {COCOOpenPosePredictor, MPIOpenPosePredictor, Body25OpenPosePredictor}"
    by simp
  have l: "length sample_keypoints = length (BODY_PARTS COCOOpenPosePredictor)"
    by (simp add: coco_length sample_keypoints_length)
  have p: "(''LEye'', ''LEar'') \<in> set (POSE_PAIRS COCOOpenPosePredictor)"
    by (simp add: COCOOpenPosePredictor_def)
  note t = pose_pairs_in_range[of COCOOpenPosePredictor sample_keypoints 0 True "1 / 20" sample_store]
  show ?thesis using m l p t by blast
qed

section \<open>Properties of \<open>add_keypoints_to_json\<close>\<close>

lemma concat_triples:
  assumes "\<forall>xs \<in> set xss. length xs = 3" "i < length xss"
  shows "take 3 (drop (3 * i) (concat xss)) = xss ! i"
  using assms
proof (induction xss arbitrary: i)
  case Nil
  then show ?case by simp
next
  case (Cons xs xss)
  have l: "length xs = 3" using Cons.prems(1) by simp
  show ?case
  proof (cases i)
    case 0
    then show ?thesis using l by simp
  next
    case (Suc j)
    then have "take 3 (drop (3 * j) (concat xss)) = xss ! j" using Cons by simp
    then show ?thesis using Suc l by (simp add: add.commute)
  qed
qed

lemma length_concat_triples:
  "\<forall>xs \<in> set xss. length xs = 3 \<Longrightarrow> length (concat xss) = 3 * length xss"
  by (induction xss) simp_all

lemma length_fill_missing: "length (fill_missing missing_val p) = 3"
  by (auto simp: fill_missing_def split: option.splits)

text \<open>
  Claim C7. The record returned for a pose is \<open>{version: 1.0, people: [one entry]}\<close>; the
  entry's flat sequence holds, for the \<open>i\<close>-th keypoint, at positions \<open>3i, 3i+1, 3i+2\<close>
  either \<open>x, y, c\<close> or three times \<open>missing_val\<close> when the keypoint is absent, and its length
  is \<open>3 * len(BODY_PARTS)\<close> however many keypoints are absent. A record is returned for
  every output that has an image, the channels of the topology and a non-empty plane.
\<close>

theorem add_keypoints_to_json_record:
  "(well_formed self v \<and> \<bar>fst img_shape\<bar> \<le> 2 ^ 63 \<and> \<bar>snd img_shape\<bar> \<le> 2 ^ 63 \<longrightarrow>
      (\<exists>j. add_keypoints_to_json self v img_shape missing_val = Inr j))
   \<and> (add_keypoints_to_json self v img_shape missing_val = Inr j \<longrightarrow>
        (\<exists>pts flat.
            predict self v img_shape default_threshold = Inr pts
          \<and> j = \<lparr> version = PyFloat 1, people = [\<lparr> pose_keypoints = flat \<rparr>] \<rparr>
          \<and> length (people j) = 1
          \<and> length flat = 3 * length (BODY_PARTS self)
          \<and> (\<forall>i < length pts.
                (pts ! i = None \<longrightarrow>
                   take 3 (drop (3 * i) flat) = [PyInt missing_val, PyInt missing_val, PyInt missing_val])
              \<and> (\<forall>x y c. pts ! i = Some (x, y, c) \<longrightarrow>
                   take 3 (drop (3 * i) flat) = [PyFloat x, PyFloat y, PyFloat c]))))"
proof (intro conjI impI)
  assume "well_formed self v \<and> \<bar>fst img_shape\<bar> \<le> 2 ^ 63 \<and> \<bar>snd img_shape\<bar> \<le> 2 ^ 63"
  then obtain pts where "parse_keypoints self v (snd img_shape, fst img_shape) default_threshold = Inr pts"
    using parse_keypoints_total[of self v "(snd img_shape, fst img_shape)" default_threshold] by auto
  then show "\<exists>j. add_keypoints_to_json self v img_shape missing_val = Inr j"
    by (simp add: add_keypoints_to_json_def predict_def Let_def)
next
  assume a: "add_keypoints_to_json self v img_shape missing_val = Inr j"
  then obtain pts where p: "predict self v img_shape default_threshold = Inr pts"
    by (auto simp: add_keypoints_to_json_def split: sum.splits)
  define flat where "flat = concat (map (fill_missing missing_val) pts)"
  have j: "j = \<lparr> version = PyFloat 1, people = [\<lparr> pose_keypoints = flat \<rparr>] \<rparr>"
    using a p by (simp add: add_keypoints_to_json_def Let_def flat_def)
  have len: "length pts = length (BODY_PARTS self)"
    using p parse_keypoints_Inr(1)[of self v _ default_threshold pts] by (simp add: predict_def Let_def)
  have t: "\<forall>xs \<in> set (map (fill_missing missing_val) pts). length xs = 3"
    by (simp add: length_fill_missing)
  have fl: "length flat = 3 * length (BODY_PARTS self)"
    unfolding flat_def using length_concat_triples[OF t] len by simp
  have sl: "take 3 (drop (3 * i) flat) = fill_missing missing_val (pts ! i)" if "i < length pts" for i
    unfolding flat_def using concat_triples[OF t, of i] that by simp
  have "\<forall>i < length pts.
                (pts ! i = None \<longrightarrow>
                   take 3 (drop (3 * i) flat) = [PyInt missing_val, PyInt missing_val, PyInt missing_val])
              \<and> (\<forall>x y c. pts ! i = Some (x, y, c) \<longrightarrow>
                   take 3 (drop (3 * i) flat) = [PyFloat x, PyFloat y, PyFloat c])"
    using sl by (auto simp: fill_missing_def numeral_3_eq_3)
  then show "\<exists>pts flat.
            predict self v img_shape default_threshold = Inr pts
          \<and> j = \<lparr> version = PyFloat 1, people = [\<lparr> pose_keypoints = flat \<rparr>] \<rparr>
          \<and> length (people j) = 1
          \<and> length flat = 3 * length (BODY_PARTS self)
          \<and> (\<forall>i < length pts.
                (pts ! i = None \<longrightarrow>
                   take 3 (drop (3 * i) flat) = [PyInt missing_val, PyInt missing_val, PyInt missing_val])
              \<and> (\<forall>x y c. pts ! i = Some (x, y, c) \<longrightarrow>
                   take 3 (drop (3 * i) flat) = [PyFloat x, PyFloat y, PyFloat c]))"
    using p j fl by (intro exI[of _ pts] exI[of _ flat]) simp
qed

lemma default_threshold_value: "default_threshold = 3602879701896397 / 72057594037927936"
  unfolding default_threshold_def
  using round_mag_eval[of "- 5" "5 / 100"] by (simp add: round_half_even_eval)

lemma sample_predict:
  "predict COCOOpenPosePredictor sample_output (480, 640) default_threshold = Inr sample_pose"
proof -
  have "1 / 100 \<le> default_threshold" "default_threshold < 3 / 4"
    by (simp_all add: default_threshold_value)
  then show ?thesis by (simp add: predict_def sample_parse_any)
qed

lemma sample_json:
  "add_keypoints_to_json COCOOpenPosePredictor sample_output (480, 640) 0 = Inr sample_record"
  unfolding add_keypoints_to_json_def sample_predict
  by (simp add: sample_pose_def sample_record_def fill_missing_def numeral_3_eq_3)

text \<open>The record theorem on the sample output with missing value 0.\<close>

theorem add_keypoints_to_json_record_witness:
  "well_formed COCOOpenPosePredictor sample_output
   \<and> \<bar>fst (480 :: int, 640 :: int)\<bar> \<le> 2 ^ 63 \<and> \<bar>snd (480 :: int, 640 :: int)\<bar> \<le> 2 ^ 63
   \<and> add_keypoints_to_json COCOOpenPosePredictor sample_output (480, 640) 0 = Inr sample_record
   \<and> (\<exists>pts flat.
          predict COCOOpenPosePredictor sample_output (480, 640) default_threshold = Inr pts
        \<and> sample_record = \<lparr> version = PyFloat 1, people = [\<lparr> pose_keypoints = flat \<rparr>] \<rparr>
        \<and> length (people sample_record) = 1
        \<and> length flat = 3 * length (BODY_PARTS COCOOpenPosePredictor)
        \<and> (\<forall>i < length pts.
              (pts ! i = None \<longrightarrow> take 3 (drop (3 * i) flat) = [PyInt 0, PyInt 0, PyInt 0])
            \<and> (\<forall>x y c. pts ! i = Some (x, y, c) \<longrightarrow>
                 take 3 (drop (3 * i) flat) = [PyFloat x, PyFloat y, PyFloat c])))"
proof -
  have sz: "\<bar>fst (480 :: int, 640 :: int)\<bar> \<le> 2 ^ 63 \<and> \<bar>snd (480 :: int, 640 :: int)\<bar> \<le> 2 ^ 63"
    by simp
  note t = add_keypoints_to_json_record[of COCOOpenPosePredictor sample_output "(480, 640)" 0 sample_record,
      THEN conjunct2, THEN mp, OF sample_json]
  show ?thesis using sample_well_formed sz sample_json t by blast
qed

end
